theory Spec2Isabelle
  imports Main "HOL-Library.Word" "HOL-Library.Sublist"
begin

section \<open>JavaScript strings\<close>

text \<open>
  The backend (\<^verbatim>\<open>backend/src/index.js\<close>) is JavaScript. A JavaScript string is a sequence
  of 16-bit code units, and \<^verbatim>\<open>length\<close>, \<^verbatim>\<open>startsWith\<close>, \<^verbatim>\<open>trim\<close>, \<^verbatim>\<open>split\<close> and the
  regular expressions of the source (none has the \<^verbatim>\<open>u\<close> flag) all work on code units.
  A string is therefore a list of 16-bit words; \<open>js ''abc''\<close> is the string literal
  \<^verbatim>\<open>"abc"\<close>.
\<close>

type_synonym jschar = "16 word"

type_synonym jsstring = "jschar list"

definition js :: "string \<Rightarrow> jsstring" where
  "js s = map of_char s"

text \<open>
  White space as \<^verbatim>\<open>String.prototype.trim\<close> and the regular expression class \<^verbatim>\<open>\s\<close> see
  it: the WhiteSpace and LineTerminator code points of ECMAScript.
\<close>

definition is_white_space :: "jschar \<Rightarrow> bool" where
  "is_white_space c \<longleftrightarrow>
     c = 0x09 \<or> c = 0x0A \<or> c = 0x0B \<or> c = 0x0C \<or> c = 0x0D \<or> c = 0x20 \<or> c = 0xA0 \<or>
     c = 0x1680 \<or> (0x2000 \<le> c \<and> c \<le> 0x200A) \<or> c = 0x2028 \<or> c = 0x2029 \<or>
     c = 0x202F \<or> c = 0x205F \<or> c = 0x3000 \<or> c = 0xFEFF"

definition trim :: "jsstring \<Rightarrow> jsstring" where
  "trim s = rev (dropWhile is_white_space (rev (dropWhile is_white_space s)))"

fun startsWith :: "jsstring \<Rightarrow> jsstring \<Rightarrow> bool" where
  "startsWith s [] = True"
| "startsWith [] (p # ps) = False"
| "startsWith (c # cs) (p # ps) = (c = p \<and> startsWith cs ps)"

fun includes_str :: "jsstring \<Rightarrow> jsstring \<Rightarrow> bool" where
  "includes_str [] sub = (sub = [])"
| "includes_str (c # cs) sub = (startsWith (c # cs) sub \<or> includes_str cs sub)"

text \<open>
  \<^verbatim>\<open>s.split(/\r?\n/)\<close>: every line feed separates two lines, and a carriage return
  directly before it belongs to the separator. The empty string splits into one empty
  line.
\<close>

fun split_lines :: "jsstring \<Rightarrow> jsstring list" where
  "split_lines [] = [[]]"
| "split_lines (c # cs) =
     (if c = 0x0A then [] # split_lines cs
      else if c = 0x0D \<and> startsWith cs [0x0A] then [] # split_lines (tl cs)
      else (case split_lines cs of
              [] \<Rightarrow> [[c]]
            | l # ls \<Rightarrow> (c # l) # ls))"

text \<open>\<^verbatim>\<open>s.split(sep)\<close> for a separator of one code unit.\<close>

fun split_char :: "jschar \<Rightarrow> jsstring \<Rightarrow> jsstring list" where
  "split_char sep [] = [[]]"
| "split_char sep (c # cs) =
     (if c = sep then [] # split_char sep cs
      else (case split_char sep cs of
              [] \<Rightarrow> [[c]]
            | l # ls \<Rightarrow> (c # l) # ls))"

text \<open>\<^verbatim>\<open>xs.join(sep)\<close>.\<close>

fun join :: "jsstring \<Rightarrow> jsstring list \<Rightarrow> jsstring" where
  "join sep [] = []"
| "join sep [x] = x"
| "join sep (x # y # ys) = x @ sep @ join sep (y # ys)"

section \<open>Errors\<close>

text \<open>
  A thrown JavaScript exception is a value: \<open>Error msg\<close> is \<^verbatim>\<open>new Error(msg)\<close>, \<open>TypeError\<close>
  is what \<^verbatim>\<open>new URL\<close> throws on input it cannot parse, \<open>URIError\<close> what
  \<^verbatim>\<open>encodeURIComponent\<close> and \<^verbatim>\<open>decodeURIComponent\<close> throw. A function that can throw
  returns \<open>js_error + 'a\<close>, \<open>Inl\<close> being the exception.
\<close>

datatype js_error = Error jsstring | TypeError | URIError

fun message :: "js_error \<Rightarrow> jsstring" where
  "message (Error msg) = msg"
| "message TypeError = js ''Invalid URL''"
| "message URIError = js ''URI malformed''"

text \<open>\<^verbatim>\<open>xs.map(f)\<close> for an \<open>f\<close> that can throw: the first exception ends the call.\<close>

fun map_result :: "('a \<Rightarrow> js_error + 'b) \<Rightarrow> 'a list \<Rightarrow> js_error + 'b list" where
  "map_result f [] = Inr []"
| "map_result f (x # xs) =
     (case f x of
        Inl e \<Rightarrow> Inl e
      | Inr y \<Rightarrow> (case map_result f xs of Inl e \<Rightarrow> Inl e | Inr ys \<Rightarrow> Inr (y # ys)))"

section \<open>Percent-encoding\<close>

text \<open>
  \<^verbatim>\<open>encodeURIComponent\<close> (ECMAScript, Encode with the unreserved set of URI components):
  a code unit of \<^verbatim>\<open>A-Z a-z 0-9 - _ . ! ~ * ' ( )\<close> is copied; any other code point is
  written as the \<^verbatim>\<open>%XX\<close> escapes (upper-case hexadecimal) of its UTF-8 octets; a
  surrogate code unit without its partner throws URIError.
\<close>

definition is_alnum :: "jschar \<Rightarrow> bool" where
  "is_alnum c \<longleftrightarrow>
     (0x30 \<le> c \<and> c \<le> 0x39) \<or> (0x41 \<le> c \<and> c \<le> 0x5A) \<or> (0x61 \<le> c \<and> c \<le> 0x7A)"

definition uri_unescaped :: "jschar \<Rightarrow> bool" where
  "uri_unescaped c \<longleftrightarrow>
     is_alnum c \<or> c = 0x2D \<or> c = 0x5F \<or> c = 0x2E \<or> c = 0x21 \<or> c = 0x7E \<or>
     c = 0x2A \<or> c = 0x27 \<or> c = 0x28 \<or> c = 0x29"

definition is_high_surrogate :: "jschar \<Rightarrow> bool" where
  "is_high_surrogate c \<longleftrightarrow> 0xD800 \<le> c \<and> c \<le> 0xDBFF"

definition is_low_surrogate :: "jschar \<Rightarrow> bool" where
  "is_low_surrogate c \<longleftrightarrow> 0xDC00 \<le> c \<and> c \<le> 0xDFFF"

definition surrogate_pair :: "jschar \<Rightarrow> jschar \<Rightarrow> nat" where
  "surrogate_pair hi lo = 0x10000 + (unat hi - 0xD800) * 0x400 + (unat lo - 0xDC00)"

definition utf8_octets :: "nat \<Rightarrow> nat list" where
  "utf8_octets cp =
     (if cp < 0x80 then [cp]
      else if cp < 0x800 then [0xC0 + cp div 0x40, 0x80 + cp mod 0x40]
      else if cp < 0x10000 then
        [0xE0 + cp div 0x1000, 0x80 + cp div 0x40 mod 0x40, 0x80 + cp mod 0x40]
      else
        [0xF0 + cp div 0x40000, 0x80 + cp div 0x1000 mod 0x40,
         0x80 + cp div 0x40 mod 0x40, 0x80 + cp mod 0x40])"

definition hex_digit :: "nat \<Rightarrow> jschar" where
  "hex_digit d = (if d < 10 then of_nat (0x30 + d) else of_nat (0x41 + (d - 10)))"

definition percent_octet :: "nat \<Rightarrow> jsstring" where
  "percent_octet b = [0x25, hex_digit (b div 16), hex_digit (b mod 16)]"

definition percent_utf8 :: "nat \<Rightarrow> jsstring" where
  "percent_utf8 cp = concat (map percent_octet (utf8_octets cp))"

fun encodeURIComponent :: "jsstring \<Rightarrow> js_error + jsstring" where
  "encodeURIComponent [] = Inr []"
| "encodeURIComponent (c # cs) =
     (if uri_unescaped c then
        (case encodeURIComponent cs of Inl e \<Rightarrow> Inl e | Inr r \<Rightarrow> Inr (c # r))
      else if is_low_surrogate c then Inl URIError
      else if \<not> is_high_surrogate c then
        (case encodeURIComponent cs of
           Inl e \<Rightarrow> Inl e
         | Inr r \<Rightarrow> Inr (percent_utf8 (unat c) @ r))
      else
        (case cs of
           [] \<Rightarrow> Inl URIError
         | d # ds \<Rightarrow>
             if \<not> is_low_surrogate d then Inl URIError
             else
               (case encodeURIComponent ds of
                  Inl e \<Rightarrow> Inl e
                | Inr r \<Rightarrow> Inr (percent_utf8 (surrogate_pair c d) @ r))))"

text \<open>
  \<^verbatim>\<open>decodeURIComponent\<close> (ECMAScript, Decode with an empty reserved set) reads the value
  of a query parameter back. It is a function of the platform, written here from the
  language standard: a code unit other than \<^verbatim>\<open>%\<close> is copied; \<^verbatim>\<open>%XX\<close> below \<^verbatim>\<open>0x80\<close> is
  that character; \<^verbatim>\<open>%XX\<close> with \<open>n\<close> leading one bits, \<open>2 \<le> n \<le> 4\<close>, opens a UTF-8
  sequence of \<open>n\<close> escaped octets, which must be the shortest encoding of a code point
  that is no surrogate and at most \<^verbatim>\<open>0x10FFFF\<close>; anything else throws URIError.
\<close>

definition hex_value :: "jschar \<Rightarrow> nat option" where
  "hex_value c =
     (if 0x30 \<le> c \<and> c \<le> 0x39 then Some (unat c - 0x30)
      else if 0x41 \<le> c \<and> c \<le> 0x46 then Some (unat c - 0x41 + 10)
      else if 0x61 \<le> c \<and> c \<le> 0x66 then Some (unat c - 0x61 + 10)
      else None)"

fun parse_escape :: "jsstring \<Rightarrow> nat option" where
  "parse_escape [p, h, l] =
     (if p = 0x25 then
        (case hex_value h of
           None \<Rightarrow> None
         | Some a \<Rightarrow> (case hex_value l of None \<Rightarrow> None | Some b \<Rightarrow> Some (16 * a + b)))
      else None)"
| "parse_escape _ = None"

fun parse_escapes :: "nat \<Rightarrow> jsstring \<Rightarrow> nat list option" where
  "parse_escapes 0 s = (if s = [] then Some [] else None)"
| "parse_escapes (Suc n) s =
     (case parse_escape (take 3 s) of
        None \<Rightarrow> None
      | Some b \<Rightarrow>
          (case parse_escapes n (drop 3 s) of None \<Rightarrow> None | Some bs \<Rightarrow> Some (b # bs)))"

definition leading_ones :: "nat \<Rightarrow> nat" where
  "leading_ones b =
     (if b < 0x80 then 0 else if b < 0xC0 then 1 else if b < 0xE0 then 2
      else if b < 0xF0 then 3 else if b < 0xF8 then 4 else 5)"

definition is_continuation :: "nat \<Rightarrow> bool" where
  "is_continuation b \<longleftrightarrow> 0x80 \<le> b \<and> b < 0xC0"

fun utf8_code_point :: "nat list \<Rightarrow> nat option" where
  "utf8_code_point [a, b] =
     (let cp = (a - 0xC0) * 0x40 + (b - 0x80)
      in if is_continuation b \<and> 0x80 \<le> cp then Some cp else None)"
| "utf8_code_point [a, b, c] =
     (let cp = (a - 0xE0) * 0x1000 + (b - 0x80) * 0x40 + (c - 0x80)
      in if is_continuation b \<and> is_continuation c \<and> 0x800 \<le> cp \<and>
            \<not> (0xD800 \<le> cp \<and> cp \<le> 0xDFFF) then Some cp else None)"
| "utf8_code_point [a, b, c, d] =
     (let cp = (a - 0xF0) * 0x40000 + (b - 0x80) * 0x1000 + (c - 0x80) * 0x40 + (d - 0x80)
      in if is_continuation b \<and> is_continuation c \<and> is_continuation d \<and>
            0x10000 \<le> cp \<and> cp \<le> 0x10FFFF then Some cp else None)"
| "utf8_code_point _ = None"

definition utf16_units :: "nat \<Rightarrow> jsstring" where
  "utf16_units cp =
     (if cp < 0x10000 then [of_nat cp]
      else [of_nat (0xD800 + (cp - 0x10000) div 0x400),
            of_nat (0xDC00 + (cp - 0x10000) mod 0x400)])"

function decodeURIComponent :: "jsstring \<Rightarrow> js_error + jsstring" where
  "decodeURIComponent [] = Inr []"
| "decodeURIComponent (c # cs) =
     (if c \<noteq> 0x25 then
        (case decodeURIComponent cs of Inl e \<Rightarrow> Inl e | Inr r \<Rightarrow> Inr (c # r))
      else
        (case parse_escape (take 3 (c # cs)) of
           None \<Rightarrow> Inl URIError
         | Some b \<Rightarrow>
             let n = leading_ones b in
             if n = 0 then
               (case decodeURIComponent (drop 2 cs) of
                  Inl e \<Rightarrow> Inl e
                | Inr r \<Rightarrow> Inr (of_nat b # r))
             else if n = 1 \<or> n > 4 then Inl URIError
             else
               (case parse_escapes (n - 1) (take (3 * (n - 1)) (drop 2 cs)) of
                  None \<Rightarrow> Inl URIError
                | Some bs \<Rightarrow>
                    (case utf8_code_point (b # bs) of
                       None \<Rightarrow> Inl URIError
                     | Some cp \<Rightarrow>
                         (case decodeURIComponent (drop (3 * (n - 1)) (drop 2 cs)) of
                            Inl e \<Rightarrow> Inl e
                          | Inr r \<Rightarrow> Inr (utf16_units cp @ r))))))"
  by pat_completeness auto
termination
  by (relation "measure length") auto

section \<open>Playlist parser\<close>

text \<open>
  \<^verbatim>\<open>parseAttributes\<close> runs the global regular expression
  \<^verbatim>\<open>/([a-zA-Z0-9\-]+)="([^"]*)"/g\<close> over the line. \<open>match_attribute\<close> is one match
  attempt at the start of the text: the longest run of key characters (a shorter key
  would be followed by a key character, not by \<^verbatim>\<open>=\<close>), then \<^verbatim>\<open>="\<close>, then everything up to
  the next double quote, which must exist. It returns the key, the value and the text
  after the match. \<open>attribute_matches\<close> is the \<^verbatim>\<open>exec\<close> loop: the leftmost match from
  \<^verbatim>\<open>lastIndex\<close> on, then again from the end of that match.
\<close>

definition attr_key_char :: "jschar \<Rightarrow> bool" where
  "attr_key_char c \<longleftrightarrow> is_alnum c \<or> c = 0x2D"

definition match_attribute :: "jsstring \<Rightarrow> (jsstring \<times> jsstring \<times> jsstring) option" where
  \<open>match_attribute t =
     (let key = takeWhile attr_key_char t; after_key = dropWhile attr_key_char t
      in if key = [] \<or> \<not> startsWith after_key (js ''="'') then None
         else
           (let body = drop 2 after_key;
                val = takeWhile (\<lambda>c. c \<noteq> 0x22) body;
                after_val = dropWhile (\<lambda>c. c \<noteq> 0x22) body
            in if after_val = [] then None else Some (key, val, tl after_val)))\<close>

lemma match_attribute_shorter:
  assumes "match_attribute t = Some (k, v, rest)"
  shows "length rest < length t"
proof -
  let ?a = "dropWhile attr_key_char t"
  let ?b = "dropWhile (\<lambda>c. c \<noteq> 0x22) (drop 2 ?a)"
  from assms have b: "?b \<noteq> []" and rest: "rest = tl ?b"
    by (auto simp: match_attribute_def Let_def split: if_splits)
  have "length ?b \<le> length (drop 2 ?a)" by (rule length_dropWhile_le)
  also have "\<dots> \<le> length ?a" by simp
  also have "\<dots> \<le> length t" by (rule length_dropWhile_le)
  finally have "length ?b \<le> length t" .
  moreover from b have "length (tl ?b) < length ?b" by (cases ?b) simp_all
  ultimately show ?thesis by (simp add: rest)
qed

function attribute_matches :: "jsstring \<Rightarrow> (jsstring \<times> jsstring) list" where
  "attribute_matches [] = []"
| "attribute_matches (c # cs) =
     (case match_attribute (c # cs) of
        None \<Rightarrow> attribute_matches cs
      | Some (k, v, rest) \<Rightarrow> (k, v) # attribute_matches rest)"
  by pat_completeness auto
termination
  by (relation "measure length") (auto dest: match_attribute_shorter)

text \<open>
  A channel is a plain object with string values: a map from property names to strings.
  (The order of the properties, which only the JSON serialisation shows, is not part of
  the model.) \<^verbatim>\<open>attributes[match[1]] = match[2]\<close> for every match, in order, so that a
  later attribute replaces an earlier one of the same key.
\<close>

type_synonym channel = "jsstring \<rightharpoonup> jsstring"

definition assign_all :: "(jsstring \<times> jsstring) list \<Rightarrow> channel \<Rightarrow> channel" where
  "assign_all kvs obj = foldl (\<lambda>m (k, v). m(k \<mapsto> v)) obj kvs"

definition parseAttributes :: "jsstring \<Rightarrow> channel" where
  "parseAttributes line = assign_all (attribute_matches line) Map.empty"

text \<open>
  \<^verbatim>\<open>const [_, title] = line.split(",", 2)\<close>: the line is split at every comma, the limit
  keeps the first two pieces, and \<^verbatim>\<open>title\<close> is the second piece, \<^verbatim>\<open>undefined\<close> (\<open>None\<close>) when
  there is no comma.
\<close>

definition extinf_title :: "jsstring \<Rightarrow> jsstring option" where
  "extinf_title line =
     (case take 2 (split_char 0x2C line) of
        [_, title] \<Rightarrow> Some title
      | _ \<Rightarrow> None)"

text \<open>
  The object literal \<^verbatim>\<open>{ name: (title || "Unknown").trim(), ...parseAttributes(line) }\<close>:
  \<^verbatim>\<open>name\<close> first, then the attributes spread over it.
\<close>

definition open_channel :: "jsstring \<Rightarrow> channel" where
  "open_channel line =
     (let title = (case extinf_title line of
                     None \<Rightarrow> js ''Unknown''
                   | Some t \<Rightarrow> if t = [] then js ''Unknown'' else t)
      in assign_all (attribute_matches line) [js ''name'' \<mapsto> trim title])"

text \<open>
  \<^verbatim>\<open>current.url = line; current.streamUrl = `/api/stream?url=${encodeURIComponent(line)}`\<close>.
\<close>

definition close_channel :: "channel \<Rightarrow> jsstring \<Rightarrow> js_error + channel" where
  "close_channel current line =
     (case encodeURIComponent line of
        Inl e \<Rightarrow> Inl e
      | Inr enc \<Rightarrow>
          Inr (current(js ''url'' \<mapsto> line, js ''streamUrl'' \<mapsto> js ''/api/stream?url='' @ enc)))"

text \<open>
  The loop of \<^verbatim>\<open>parseM3U\<close> over the lines, with its two variables \<^verbatim>\<open>current\<close> (the pending
  record, \<open>None\<close> for \<^verbatim>\<open>null\<close>) and \<^verbatim>\<open>channels\<close>. The condition of the second branch of
  the source, \<^verbatim>\<open>!line.startsWith("#") && current\<close>, is tested in two steps: a line that
  begins with \<^verbatim>\<open>#\<close>, and a line met with no pending record, both leave the state as it is.
  The only exception the loop can throw is the URIError of \<^verbatim>\<open>encodeURIComponent\<close>.
\<close>

fun parse_lines :: "jsstring list \<Rightarrow> channel option \<Rightarrow> channel list \<Rightarrow> js_error + channel list" where
  "parse_lines [] current channels = Inr channels"
| "parse_lines (rawLine # rest) current channels =
     (let line = trim rawLine in
      if line = [] then parse_lines rest current channels
      else if startsWith line (js ''#EXTINF'') then
        parse_lines rest (Some (open_channel line)) channels
      else if startsWith line (js ''#'') then parse_lines rest current channels
      else
        (case current of
           None \<Rightarrow> parse_lines rest current channels
         | Some cur \<Rightarrow>
             (case close_channel cur line of
                Inl e \<Rightarrow> Inl e
              | Inr ch \<Rightarrow> parse_lines rest None (channels @ [ch]))))"

definition parseM3U :: "jsstring \<Rightarrow> js_error + channel list" where
  "parseM3U content = parse_lines (split_lines content) None []"

section \<open>Manifest rewriter\<close>

text \<open>
  \<^verbatim>\<open>new URL(input, base)\<close> is the URL parser of the platform, not code of this repository:
  it is a parameter \<open>new_URL\<close>, which takes the input and the base (\<open>None\<close> when there is
  none; a base given as a URL object is read as its serialisation) and returns the
  serialised URL (\<^verbatim>\<open>toString()\<close>), or \<open>None\<close> where the constructor throws a TypeError.
\<close>

type_synonym url_parser = "jsstring \<Rightarrow> jsstring option \<Rightarrow> jsstring option"

definition rewrite_line :: "url_parser \<Rightarrow> jsstring \<Rightarrow> jsstring \<Rightarrow> js_error + jsstring" where
  "rewrite_line new_URL base line =
     (let trimmed = trim line in
      if trimmed = [] \<or> startsWith trimmed (js ''#'') \<or> startsWith trimmed (js ''DATA:'')
      then Inr trimmed
      else
        (case new_URL trimmed (Some base) of
           None \<Rightarrow> Inl TypeError
         | Some absolute \<Rightarrow>
             (case encodeURIComponent absolute of
                Inl e \<Rightarrow> Inl e
              | Inr enc \<Rightarrow> Inr (js ''/api/stream?url='' @ enc))))"

definition rewriteManifestWithProxy :: "url_parser \<Rightarrow> jsstring \<Rightarrow> jsstring \<Rightarrow> js_error + jsstring" where
  "rewriteManifestWithProxy new_URL body sourceUrl =
     (case new_URL sourceUrl None of
        None \<Rightarrow> Inl TypeError
      | Some base \<Rightarrow>
          (case map_result (rewrite_line new_URL base) (split_lines body) of
             Inl e \<Rightarrow> Inl e
           | Inr lines \<Rightarrow> Inr (join [0x0A] lines)))"

section \<open>Stream relay\<close>

definition isManifest :: "jsstring \<Rightarrow> bool" where
  "isManifest contentType \<longleftrightarrow>
     includes_str contentType (js ''application/vnd.apple.mpegurl'') \<or>
     includes_str contentType (js ''application/x-mpegURL'') \<or>
     includes_str contentType (js ''application/octet-stream'')"

text \<open>
  The handler of \<^verbatim>\<open>GET /api/stream\<close> from the point where the upstream response has
  arrived. The upstream response is its \<^verbatim>\<open>ok\<close> flag, its status, its \<^verbatim>\<open>content-type\<close>
  header (\<open>None\<close> when the header is missing) and its body, as octets; \<open>text_of\<close> is
  \<^verbatim>\<open>upstream.text()\<close>, the platform's decoding of the octets to a string. The four
  responses of the handler are the constructors of \<open>relay_response\<close>.
\<close>

record upstream_response =
  ok :: bool
  status :: nat
  content_type :: "jsstring option"
  body :: "8 word list"

datatype relay_response =
    UpstreamError nat jsstring
      \<comment> \<open>\<^verbatim>\<open>res.status(upstream.status).json({ error: `Upstream returned ${status}`, url })\<close>\<close>
  | ManifestResponse jsstring
      \<comment> \<open>content-type \<^verbatim>\<open>application/vnd.apple.mpegurl\<close>, the rewritten manifest sent as text\<close>
  | StreamResponse jsstring "8 word list"
      \<comment> \<open>content-type as given, cache-control \<^verbatim>\<open>no-store\<close>, the upstream body piped through\<close>
  | ProxyFailure js_error
      \<comment> \<open>the \<^verbatim>\<open>catch\<close> block: 502 \<^verbatim>\<open>{ error: "Failed to proxy stream", code, message }\<close>\<close>

definition relay_upstream ::
  "url_parser \<Rightarrow> (8 word list \<Rightarrow> jsstring) \<Rightarrow> jsstring \<Rightarrow> upstream_response \<Rightarrow> relay_response" where
  "relay_upstream new_URL text_of target upstream =
     (if \<not> ok upstream then UpstreamError (status upstream) target
      else
        (let contentType = (case content_type upstream of None \<Rightarrow> [] | Some ct \<Rightarrow> ct) in
         if isManifest contentType then
           (case rewriteManifestWithProxy new_URL (text_of (body upstream)) target of
              Inl e \<Rightarrow> ProxyFailure e
            | Inr manifest \<Rightarrow> ManifestResponse manifest)
         else StreamResponse contentType (body upstream)))"

section \<open>Playlist source of the channel list\<close>

text \<open>
  \<^verbatim>\<open>macRegex\<close> is \<^verbatim>\<open>/^([0-9A-Fa-f]{2}[:-]){5}([0-9A-Fa-f]{2})$|^([0-9A-Fa-f]{12})$/\<close>.
  \<open>mac_groups n\<close> matches \<open>n\<close> groups of two hexadecimal digits and a separator at the
  start of the text and returns the rest.
\<close>

definition is_hex_digit :: "jschar \<Rightarrow> bool" where
  "is_hex_digit c \<longleftrightarrow>
     (0x30 \<le> c \<and> c \<le> 0x39) \<or> (0x41 \<le> c \<and> c \<le> 0x46) \<or> (0x61 \<le> c \<and> c \<le> 0x66)"

definition is_mac_separator :: "jschar \<Rightarrow> bool" where
  "is_mac_separator c \<longleftrightarrow> c = 0x3A \<or> c = 0x2D"

fun mac_groups :: "nat \<Rightarrow> jsstring \<Rightarrow> jsstring option" where
  "mac_groups 0 s = Some s"
| "mac_groups (Suc n) (a # b # c # rest) =
     (if is_hex_digit a \<and> is_hex_digit b \<and> is_mac_separator c then mac_groups n rest
      else None)"
| "mac_groups (Suc n) s = None"

definition macRegex_test :: "jsstring \<Rightarrow> bool" where
  "macRegex_test s \<longleftrightarrow>
     (case mac_groups 5 s of
        Some [a, b] \<Rightarrow> is_hex_digit a \<and> is_hex_digit b
      | _ \<Rightarrow> False) \<or>
     (length s = 12 \<and> list_all is_hex_digit s)"

text \<open>
  \<^verbatim>\<open>macAddress.replace(/[:-]/g, '').toUpperCase()\<close>. The upper-casing is that of the
  letters \<^verbatim>\<open>a\<close> to \<^verbatim>\<open>z\<close>: the handler applies it to a string that has passed \<^verbatim>\<open>macRegex\<close>,
  which holds hexadecimal digits and separators only.
\<close>

definition upper_ascii :: "jschar \<Rightarrow> jschar" where
  "upper_ascii c = (if 0x61 \<le> c \<and> c \<le> 0x7A then c - 0x20 else c)"

definition formattedMac :: "jsstring \<Rightarrow> jsstring" where
  "formattedMac macAddress = map upper_ascii (filter (\<lambda>c. \<not> is_mac_separator c) macAddress)"

text \<open>
  The handler of \<^verbatim>\<open>GET /api/channels\<close> up to the choice of the playlist: it answers 400
  itself, or goes on to fetch one of three playlists. \<open>mac\<close> and \<open>playlist\<close> are the two
  query parameters, \<open>None\<close> when absent. An empty string is falsy, so an empty parameter
  counts as absent (\<open>truthy_string\<close>).
\<close>

datatype playlist_source =
    Respond nat jsstring
      \<comment> \<open>\<^verbatim>\<open>res.status(code).json(body)\<close>, the body as serialised\<close>
  | FetchMacPlaylist jsstring
  | FetchCustomPlaylist jsstring
  | FetchDefaultPlaylist

definition truthy_string :: "jsstring option \<Rightarrow> jsstring option" where
  "truthy_string v = (case v of None \<Rightarrow> None | Some s \<Rightarrow> if s = [] then None else Some s)"

definition channels_source :: "url_parser \<Rightarrow> jsstring option \<Rightarrow> jsstring option \<Rightarrow> playlist_source" where
  \<open>channels_source new_URL mac playlist =
     (case truthy_string mac of
        Some macAddress \<Rightarrow>
          if \<not> macRegex_test macAddress then
            Respond 400 (js ''{"error":"Invalid MAC address format"}'')
          else
            FetchMacPlaylist
              (js ''http://sm4k.688.org/get.php?username='' @ formattedMac macAddress @
               js ''&password='' @ formattedMac macAddress @ js ''&type=m3u_plus&output=ts'')
      | None \<Rightarrow>
          (case truthy_string playlist of
             Some customUrl \<Rightarrow>
               (case new_URL customUrl None of
                  None \<Rightarrow> Respond 400 (js ''{"error":"Invalid playlist URL"}'')
                | Some href \<Rightarrow>
                    if startsWith href (js ''http:'') \<or> startsWith href (js ''https:'')
                    then FetchCustomPlaylist customUrl
                    else Respond 400 (js ''{"error":"Invalid playlist URL"}''))
           | None \<Rightarrow> FetchDefaultPlaylist))\<close>

section \<open>Media URL extraction\<close>

text \<open>
  \<^verbatim>\<open>collectUrls\<close> runs the global, case-insensitive regular expression

  \<^verbatim>\<open>/(https?:\/\/[^\s"'<>]+?(?:m3u8?|mp4|mov|mkv|avi|flv|mpd|webm|ts)[^\s"'<>]*)/gi\<close>

  over the text. Without the \<^verbatim>\<open>u\<close> flag a pattern letter matches a code unit whose
  canonical form (its upper case) is that of the letter, and no code unit outside ASCII
  has an ASCII canonical form: \<open>ci_eq\<close> compares the ASCII upper cases.
\<close>

definition url_char :: "jschar \<Rightarrow> bool" where
  "url_char c \<longleftrightarrow>
     \<not> (is_white_space c \<or> c = 0x22 \<or> c = 0x27 \<or> c = 0x3C \<or> c = 0x3E)"

definition ci_eq :: "jschar \<Rightarrow> jschar \<Rightarrow> bool" where
  "ci_eq c p \<longleftrightarrow> upper_ascii c = upper_ascii p"

text \<open>A literal of the pattern at the start of the text; the result is the text after it.\<close>

fun match_ci :: "jsstring \<Rightarrow> jsstring \<Rightarrow> jsstring option" where
  "match_ci [] t = Some t"
| "match_ci (p # ps) [] = None"
| "match_ci (p # ps) (c # cs) = (if ci_eq c p then match_ci ps cs else None)"

fun first_match :: "jsstring list \<Rightarrow> jsstring \<Rightarrow> jsstring option" where
  "first_match [] t = None"
| "first_match (p # ps) t =
     (case match_ci p t of Some r \<Rightarrow> Some r | None \<Rightarrow> first_match ps t)"

text \<open>
  The alternation \<^verbatim>\<open>(?:m3u8?|mp4|mov|mkv|avi|flv|mpd|webm|ts)\<close>, the alternatives tried in
  their order and \<^verbatim>\<open>8?\<close> greedy. What follows it in the pattern, \<^verbatim>\<open>[^\s"'<>]*\<close>, cannot
  fail, so the first alternative that matches is the one taken.
\<close>

definition match_ext :: "jsstring \<Rightarrow> jsstring option" where
  "match_ext t =
     (case match_ci (js ''m3u'') t of
        Some r \<Rightarrow> (case match_ci (js ''8'') r of Some r' \<Rightarrow> Some r' | None \<Rightarrow> Some r)
      | None \<Rightarrow>
          first_match
            [js ''mp4'', js ''mov'', js ''mkv'', js ''avi'', js ''flv'', js ''mpd'',
             js ''webm'', js ''ts''] t)"

text \<open>
  The lazy \<^verbatim>\<open>[^\s"'<>]+?\<close> has taken at least one character: try the extension here, and
  only when it fails take one more character. After the extension the greedy
  \<^verbatim>\<open>[^\s"'<>]*\<close> takes all it can.
\<close>

fun ext_after_lazy :: "jsstring \<Rightarrow> jsstring option" where
  "ext_after_lazy [] = None"
| "ext_after_lazy (c # cs) =
     (case match_ext (c # cs) of
        Some r \<Rightarrow> Some (dropWhile url_char r)
      | None \<Rightarrow> if url_char c then ext_after_lazy cs else None)"

definition match_after_scheme :: "jsstring \<Rightarrow> jsstring option" where
  "match_after_scheme r =
     (case match_ci (js ''://'') r of
        None \<Rightarrow> None
      | Some [] \<Rightarrow> None
      | Some (c # cs) \<Rightarrow> if url_char c then ext_after_lazy cs else None)"

text \<open>
  One match attempt at the start of the text: \<^verbatim>\<open>http\<close>, then \<^verbatim>\<open>s?\<close> (first with the
  \<^verbatim>\<open>s\<close>, and without it when the rest fails that way), then the rest of the pattern.
  The result is the text after the match.
\<close>

definition match_url :: "jsstring \<Rightarrow> jsstring option" where
  "match_url t =
     (case match_ci (js ''http'') t of
        None \<Rightarrow> None
      | Some r \<Rightarrow>
          (case (case match_ci (js ''s'') r of
                   None \<Rightarrow> None
                 | Some r' \<Rightarrow> match_after_scheme r') of
             Some rest \<Rightarrow> Some rest
           | None \<Rightarrow> match_after_scheme r))"

lemma match_ci_length: "match_ci p t = Some r \<Longrightarrow> length t = length p + length r"
  by (induction p t rule: match_ci.induct) (auto split: if_splits)

lemma first_match_length: "first_match ps t = Some r \<Longrightarrow> length r \<le> length t"
  by (induction ps) (auto split: option.splits dest: match_ci_length)

lemma match_ext_length: "match_ext t = Some r \<Longrightarrow> length r \<le> length t"
  by (auto simp: match_ext_def split: option.splits
      dest!: match_ci_length first_match_length)

lemma ext_after_lazy_length: "ext_after_lazy t = Some r \<Longrightarrow> length r \<le> length t"
proof (induction t)
  case Nil
  then show ?case by simp
next
  case (Cons c cs)
  show ?case
  proof (cases "match_ext (c # cs)")
    case None
    with Cons show ?thesis by (auto split: if_splits)
  next
    case (Some x)
    with Cons.prems have r: "r = dropWhile url_char x" by simp
    have "length (dropWhile url_char x) \<le> length x" by (rule length_dropWhile_le)
    with match_ext_length [OF Some] show ?thesis by (simp add: r)
  qed
qed

lemma match_after_scheme_length:
  "match_after_scheme t = Some r \<Longrightarrow> length r < length t"
  by (auto simp: match_after_scheme_def split: option.splits list.splits if_splits
      dest!: match_ci_length ext_after_lazy_length)

lemma match_url_shorter: "match_url t = Some r \<Longrightarrow> length r < length t"
  by (auto simp: match_url_def split: option.splits
      dest!: match_ci_length match_after_scheme_length)

text \<open>
  The \<^verbatim>\<open>exec\<close> loop: the leftmost match from \<^verbatim>\<open>lastIndex\<close> on is recorded (\<^verbatim>\<open>match[1]\<close> is
  the whole match), and the search goes on from its end.
\<close>

function url_matches :: "jsstring \<Rightarrow> jsstring list" where
  "url_matches [] = []"
| "url_matches (c # cs) =
     (case match_url (c # cs) of
        None \<Rightarrow> url_matches cs
      | Some rest \<Rightarrow> take (length (c # cs) - length rest) (c # cs) # url_matches rest)"
  by pat_completeness auto
termination
  by (relation "measure length") (auto dest: match_url_shorter)

text \<open>\<^verbatim>\<open>[...new Set(xs)]\<close>: the elements in the order of their first occurrence.\<close>

definition Set_values :: "'a list \<Rightarrow> 'a list" where
  "Set_values xs = foldl (\<lambda>acc x. if x \<in> set acc then acc else acc @ [x]) [] xs"

definition collectUrls :: "jsstring \<Rightarrow> jsstring list" where
  "collectUrls text = (if text = [] then [] else Set_values (url_matches text))"

section \<open>The lobster resolver and its fallback\<close>

text \<open>
  A parsed JSON value. The numbers of JavaScript are floating point: they are a type
  parameter, and the one thing the resolver asks of a number, whether it is truthy
  (neither zero nor NaN), is a parameter too. An object is the list of its properties.
\<close>

datatype 'n json =
    JNull
  | JBool bool
  | JNumber 'n
  | JString jsstring
  | JArray "'n json list"
  | JObject "(jsstring \<times> 'n json) list"

fun index_of :: "jschar \<Rightarrow> jsstring \<Rightarrow> nat option" where
  "index_of c [] = None"
| "index_of c (x # xs) =
     (if x = c then Some 0
      else (case index_of c xs of None \<Rightarrow> None | Some i \<Rightarrow> Some (Suc i)))"

definition last_index_of :: "jschar \<Rightarrow> jsstring \<Rightarrow> nat option" where
  "last_index_of c s =
     (case index_of c (rev s) of None \<Rightarrow> None | Some i \<Rightarrow> Some (length s - 1 - i))"

text \<open>
  \<^verbatim>\<open>parseJsonFromText\<close>: the text from the first \<^verbatim>\<open>{\<close> to the last \<^verbatim>\<open>}\<close> goes to
  \<^verbatim>\<open>JSON.parse\<close>, a function of the platform and a parameter here (\<open>None\<close> where it
  throws); the result is \<^verbatim>\<open>null\<close> (\<open>None\<close>) when there is no such text or it does not
  parse.
\<close>

definition parseJsonFromText :: "(jsstring \<Rightarrow> 'n json option) \<Rightarrow> jsstring \<Rightarrow> 'n json option" where
  "parseJsonFromText JSON_parse text =
     (if text = [] then None
      else
        (case index_of 0x7B text of
           None \<Rightarrow> None
         | Some start \<Rightarrow>
             (case last_index_of 0x7D text of
                None \<Rightarrow> None
              | Some end' \<Rightarrow>
                  if end' \<le> start then None
                  else JSON_parse (take (end' + 1 - start) (drop start text)))))"

text \<open>\<^verbatim>\<open>flattenValues(value, collector)\<close>: the strings pushed to the collector, in order.\<close>

fun flattenValues :: "'n json \<Rightarrow> jsstring list" where
  "flattenValues (JString s) = [s]"
| "flattenValues (JArray items) = concat (map flattenValues items)"
| "flattenValues (JObject props) = concat (map (\<lambda>p. flattenValues (snd p)) props)"
| "flattenValues JNull = []"
| "flattenValues (JBool b) = []"
| "flattenValues (JNumber n) = []"

text \<open>
  Property access and truthiness, for \<^verbatim>\<open>parsed.title || parsed.name || parsed?.info?.title\<close>.
  \<open>None\<close> is \<^verbatim>\<open>undefined\<close>. The three names asked for are properties of objects only.
\<close>

fun get_property :: "'n json \<Rightarrow> jsstring \<Rightarrow> 'n json option" where
  "get_property (JObject props) k = map_of props k"
| "get_property v k = None"

fun truthy :: "('n \<Rightarrow> bool) \<Rightarrow> 'n json option \<Rightarrow> bool" where
  "truthy nz None = False"
| "truthy nz (Some JNull) = False"
| "truthy nz (Some (JBool b)) = b"
| "truthy nz (Some (JNumber n)) = nz n"
| "truthy nz (Some (JString s)) = (s \<noteq> [])"
| "truthy nz (Some (JArray items)) = True"
| "truthy nz (Some (JObject props)) = True"

definition optional_title :: "'n json option \<Rightarrow> 'n json option" where
  "optional_title info =
     (case info of
        None \<Rightarrow> None
      | Some JNull \<Rightarrow> None
      | Some v \<Rightarrow> get_property v (js ''title''))"

definition parsed_title :: "('n \<Rightarrow> bool) \<Rightarrow> 'n json \<Rightarrow> 'n json option" where
  "parsed_title nz parsed =
     (if truthy nz (get_property parsed (js ''title'')) then get_property parsed (js ''title'')
      else if truthy nz (get_property parsed (js ''name'')) then get_property parsed (js ''name'')
      else optional_title (get_property parsed (js ''info'')))"

text \<open>\<^verbatim>\<open>query.replace(/\+/g, " ")\<close>.\<close>

definition plus_to_space :: "jsstring \<Rightarrow> jsstring" where
  "plus_to_space q = map (\<lambda>c. if c = 0x2B then 0x20 else c) q"

record 'n resolved =
  title :: "'n json"
  urls :: "jsstring list"
  raw :: jsstring

text \<open>
  What the resolver reaches outside itself: \<^verbatim>\<open>runCommand(command, args, ...)\<close>, which
  resolves to the standard output of the subprocess or rejects with an error;
  \<^verbatim>\<open>JSON.parse\<close>; the truthiness of numbers; the constant \<^verbatim>\<open>TMDB_TOKEN\<close> of the process
  environment (\<open>None\<close> when unset); and \<^verbatim>\<open>resolveWithVidsrc({ query, episode, type })\<close>,
  which fetches over the network and returns a resolved title or throws.
\<close>

record 'n platform =
  runCommand :: "jsstring \<Rightarrow> jsstring list \<Rightarrow> js_error + jsstring"
  JSON_parse :: "jsstring \<Rightarrow> 'n json option"
  number_truthy :: "'n \<Rightarrow> bool"
  TMDB_TOKEN :: "jsstring option"
  resolveWithVidsrc :: "jsstring \<Rightarrow> jsstring \<Rightarrow> jsstring \<Rightarrow> js_error + 'n resolved"

text \<open>
  The first part of \<^verbatim>\<open>resolveWithLobster\<close>: the subprocess is run, and a rejection is
  caught into \<^verbatim>\<open>lastError\<close>, leaving \<^verbatim>\<open>stdout\<close> empty.
\<close>

definition lobster_args :: "jsstring \<Rightarrow> jsstring option \<Rightarrow> jsstring list" where
  "lobster_args query quality =
     [js ''--json''] @
     (case truthy_string quality of None \<Rightarrow> [] | Some q \<Rightarrow> [js ''-q'', q]) @
     [query]"

definition run_lobster :: "'n platform \<Rightarrow> jsstring \<Rightarrow> jsstring option \<Rightarrow> jsstring \<times> js_error option" where
  "run_lobster p query quality =
     (case runCommand p (js ''lobster'') (lobster_args query quality) of
        Inl error \<Rightarrow> ([], Some error)
      | Inr out \<Rightarrow> (out, None))"

definition lobster_urls :: "'n platform \<Rightarrow> jsstring \<Rightarrow> jsstring list" where
  "lobster_urls p stdout =
     (let urls = collectUrls stdout;
          parsed = parseJsonFromText (JSON_parse p) stdout;
          collected = (case parsed of None \<Rightarrow> [] | Some v \<Rightarrow> flattenValues v);
          extraUrls = collectUrls (join (js '' '') collected)
      in Set_values (urls @ extraUrls))"

definition lobster_title :: "'n platform \<Rightarrow> jsstring \<Rightarrow> jsstring \<Rightarrow> 'n json" where
  "lobster_title p stdout query =
     (case parseJsonFromText (JSON_parse p) stdout of
        None \<Rightarrow> JString (plus_to_space query)
      | Some parsed \<Rightarrow>
          if truthy (number_truthy p) (Some parsed) \<and>
             truthy (number_truthy p) (parsed_title (number_truthy p) parsed)
          then (case parsed_title (number_truthy p) parsed of
                  Some t \<Rightarrow> t
                | None \<Rightarrow> JString (plus_to_space query))
          else JString (plus_to_space query))"

definition or_else :: "js_error option \<Rightarrow> js_error \<Rightarrow> js_error" where
  "or_else lastError other = (case lastError of Some e \<Rightarrow> e | None \<Rightarrow> other)"

definition resolveWithLobster ::
  "'n platform \<Rightarrow> jsstring \<Rightarrow> jsstring option \<Rightarrow> jsstring \<Rightarrow> js_error + 'n resolved" where
  "resolveWithLobster p query quality type =
     (let (stdout, lastError) = run_lobster p query quality;
          allUrls = lobster_urls p stdout
      in if allUrls \<noteq> [] then
           Inr \<lparr>title = lobster_title p stdout query, urls = allUrls, raw = stdout\<rparr>
         else if truthy_string (TMDB_TOKEN p) = None then
           Inl (or_else lastError
                  (Error (js ''lobster returned no URLs and TMDB_TOKEN is not set for the fallback resolver'')))
         else
           (case resolveWithVidsrc p query (js ''1'') type of
              Inr fallback \<Rightarrow> Inr (fallback\<lparr>raw := stdout @ [0x0A] @ js ''[FALLBACK: vidsrc]''\<rparr>)
            | Inl fallbackError \<Rightarrow>
                Inl (or_else lastError
                       (Error (js ''lobster returned no URLs; fallback failed: '' @
                               message fallbackError)))))"

section \<open>Metadata cache\<close>

text \<open>
  \<^verbatim>\<open>metaCache\<close> is a \<^verbatim>\<open>Map\<close> from a key to \<^verbatim>\<open>{ value, expires }\<close>. \<^verbatim>\<open>Date.now()\<close> is a
  parameter of both operations (milliseconds, an integer), and the map is passed in and
  returned. \<^verbatim>\<open>getCache\<close> returns \<^verbatim>\<open>null\<close> for an absent entry: \<open>None\<close> here.
\<close>

record 'v cache_entry =
  entry_value :: 'v
  expires :: int

type_synonym ('k, 'v) metaCache = "'k \<rightharpoonup> 'v cache_entry"

definition CACHE_TTL_MS :: int where
  "CACHE_TTL_MS = 60 * 1000"

definition setCache :: "int \<Rightarrow> 'k \<Rightarrow> 'v \<Rightarrow> ('k, 'v) metaCache \<Rightarrow> ('k, 'v) metaCache" where
  "setCache now key v m = m(key \<mapsto> \<lparr>entry_value = v, expires = now + CACHE_TTL_MS\<rparr>)"

definition getCache :: "int \<Rightarrow> 'k \<Rightarrow> ('k, 'v) metaCache \<Rightarrow> 'v option \<times> ('k, 'v) metaCache" where
  "getCache now key m =
     (case m key of
        None \<Rightarrow> (None, m)
      | Some entry \<Rightarrow>
          if now > expires entry then (None, m(key := None))
          else (Some (entry_value entry), m))"

section \<open>Example platforms\<close>

text \<open>
  Two platforms on which the resolver is run below: on the first the subprocess exits
  with a failure, on the second it succeeds and prints no URL. On both the token is set
  and the fallback resolver finds no title.
\<close>

definition failing_lobster :: "nat platform" where
  "failing_lobster =
     \<lparr>runCommand = (\<lambda>command args. Inl (Error (js ''lobster exited with code 1''))),
      JSON_parse = (\<lambda>s. None),
      number_truthy = (\<lambda>n. n \<noteq> 0),
      TMDB_TOKEN = Some (js ''token''),
      resolveWithVidsrc = (\<lambda>query episode type. Inl (Error (js ''No matching title found'')))\<rparr>"

definition silent_lobster :: "nat platform" where
  "silent_lobster =
     \<lparr>runCommand = (\<lambda>command args. Inr (js ''no results'')),
      JSON_parse = (\<lambda>s. None),
      number_truthy = (\<lambda>n. n \<noteq> 0),
      TMDB_TOKEN = Some (js ''token''),
      resolveWithVidsrc = (\<lambda>query episode type. Inl (Error (js ''No matching title found'')))\<rparr>"

section \<open>Shapes of MAC addresses and media URLs\<close>

text \<open>
  The format \<^verbatim>\<open>macRegex\<close> accepts, position by position: seventeen characters, every
  third one a separator (colon or hyphen, each on its own) and the others hexadecimal
  digits; or twelve hexadecimal digits.
\<close>

definition mac_format :: "jsstring \<Rightarrow> bool" where
  "mac_format s \<longleftrightarrow>
     (length s = 17 \<and>
      list_all (\<lambda>i. if i mod 3 = 2 then is_mac_separator (s ! i) else is_hex_digit (s ! i)) [0..<17]) \<or>
     (length s = 12 \<and> list_all is_hex_digit s)"

text \<open>
  The format as the specification words it: six pairs of hexadecimal digits separated
  by colons, the same with hyphens, or twelve hexadecimal digits.
\<close>

definition hex_pair :: "jsstring \<Rightarrow> bool" where
  "hex_pair p \<longleftrightarrow> length p = 2 \<and> list_all is_hex_digit p"

definition six_pairs :: "jschar \<Rightarrow> jsstring \<Rightarrow> bool" where
  "six_pairs sep s \<longleftrightarrow> length (split_char sep s) = 6 \<and> list_all hex_pair (split_char sep s)"

definition claimed_mac_format :: "jsstring \<Rightarrow> bool" where
  "claimed_mac_format s \<longleftrightarrow>
     six_pairs 0x3A s \<or> six_pairs 0x2D s \<or> (length s = 12 \<and> list_all is_hex_digit s)"

text \<open>
  The extensions of the media URL pattern, and what the pattern guarantees of a match:
  it starts with the scheme and contains an extension, both in any letter case.
\<close>

definition media_extensions :: "jsstring list" where
  "media_extensions =
     [js ''m3u8'', js ''m3u'', js ''mp4'', js ''mov'', js ''mkv'', js ''avi'', js ''flv'',
      js ''mpd'', js ''webm'', js ''ts'']"

definition starts_with_ci :: "jsstring \<Rightarrow> jsstring \<Rightarrow> bool" where
  "starts_with_ci u p \<longleftrightarrow> startsWith (map upper_ascii u) (map upper_ascii p)"

definition contains_ci :: "jsstring \<Rightarrow> jsstring \<Rightarrow> bool" where
  "contains_ci u e \<longleftrightarrow> includes_str (map upper_ascii u) (map upper_ascii e)"

definition has_http_scheme :: "jsstring \<Rightarrow> bool" where
  "has_http_scheme u \<longleftrightarrow> starts_with_ci u (js ''http://'') \<or> starts_with_ci u (js ''https://'')"

text \<open>\<^verbatim>\<open>s.endsWith(p)\<close>, for the specification's "ends in one of the extensions".\<close>

definition endsWith :: "jsstring \<Rightarrow> jsstring \<Rightarrow> bool" where
  "endsWith s p \<longleftrightarrow> startsWith (rev s) (rev p)"

section \<open>The playlist as the specification reads it\<close>

text \<open>
  The kinds of lines, after trimming: blank; an \<^verbatim>\<open>#EXTINF\<close> line; a comment, which is any
  other line that begins with \<^verbatim>\<open>#\<close>; a URL line, which is any line that is not blank and
  does not begin with \<^verbatim>\<open>#\<close>.
\<close>

definition is_blank :: "jsstring \<Rightarrow> bool" where
  "is_blank l \<longleftrightarrow> trim l = []"

definition is_extinf :: "jsstring \<Rightarrow> bool" where
  "is_extinf l \<longleftrightarrow> startsWith (trim l) (js ''#EXTINF'')"

definition is_comment :: "jsstring \<Rightarrow> bool" where
  "is_comment l \<longleftrightarrow> startsWith (trim l) (js ''#'') \<and> \<not> is_extinf l"

definition is_url_line :: "jsstring \<Rightarrow> bool" where
  "is_url_line l \<longleftrightarrow> trim l \<noteq> [] \<and> \<not> startsWith (trim l) (js ''#'')"

text \<open>
  The URL line that follows, skipping blank and comment lines: the first line that is
  neither, when it is a URL line. An \<^verbatim>\<open>#EXTINF\<close> line met first means there is none.
\<close>

definition next_url :: "jsstring list \<Rightarrow> jsstring option" where
  "next_url ls =
     (case dropWhile (\<lambda>l. is_blank l \<or> is_comment l) ls of
        [] \<Rightarrow> None
      | l # _ \<Rightarrow> if is_url_line l then Some l else None)"

text \<open>
  The \<^verbatim>\<open>#EXTINF\<close> lines that are followed by a URL line, each with its URL line, in the
  order of the lines.
\<close>

fun extinf_url_pairs :: "jsstring list \<Rightarrow> (jsstring \<times> jsstring) list" where
  "extinf_url_pairs [] = []"
| "extinf_url_pairs (l # ls) =
     (if is_extinf l then
        (case next_url ls of
           None \<Rightarrow> extinf_url_pairs ls
         | Some u \<Rightarrow> (l, u) # extinf_url_pairs ls)
      else extinf_url_pairs ls)"

text \<open>The channel of such a pair, and what a pending record contributes.\<close>

definition channel_of :: "jsstring \<times> jsstring \<Rightarrow> js_error + channel" where
  "channel_of p = close_channel (open_channel (trim (fst p))) (trim (snd p))"

definition pending :: "channel option \<Rightarrow> jsstring list \<Rightarrow> (channel \<times> jsstring) list" where
  "pending current ls =
     (case current of
        None \<Rightarrow> []
      | Some cur \<Rightarrow> (case next_url ls of None \<Rightarrow> [] | Some u \<Rightarrow> [(cur, trim u)]))"

text \<open>
  The text following the first comma of a line (empty when there is no comma), and the
  value of the last attribute of the line whose key is \<^verbatim>\<open>name\<close>.
\<close>

definition after_first_comma :: "jsstring \<Rightarrow> jsstring" where
  "after_first_comma line =
     (case dropWhile (\<lambda>c. c \<noteq> 0x2C) line of [] \<Rightarrow> [] | comma # rest \<Rightarrow> rest)"

definition name_attribute :: "jsstring \<Rightarrow> jsstring option" where
  "name_attribute line = map_of (rev (attribute_matches line)) (js ''name'')"

definition channel_names :: "js_error + channel list \<Rightarrow> jsstring option list" where
  "channel_names r = (case r of Inl e \<Rightarrow> [] | Inr cs \<Rightarrow> map (\<lambda>c. c (js ''name'')) cs)"

text \<open>
  The channel that an \<^verbatim>\<open>#EXTINF\<close> line and a URL line describe, property by property:
  \<^verbatim>\<open>streamUrl\<close> and \<^verbatim>\<open>url\<close> come from the URL line (\<open>enc\<close> is its percent-encoding); every
  other property is the last attribute of that key on the \<^verbatim>\<open>#EXTINF\<close> line; and \<^verbatim>\<open>name\<close>,
  when no attribute gives it, is the title of the \<^verbatim>\<open>#EXTINF\<close> line, or \<^verbatim>\<open>Unknown\<close>.
\<close>

definition described_channel :: "jsstring \<Rightarrow> jsstring \<Rightarrow> jsstring \<Rightarrow> channel" where
  "described_channel extinf url enc k =
     (if k = js ''streamUrl'' then Some (js ''/api/stream?url='' @ enc)
      else if k = js ''url'' then Some url
      else
        (case map_of (rev (attribute_matches extinf)) k of
           Some v \<Rightarrow> Some v
         | None \<Rightarrow>
             if k = js ''name'' then
               Some (trim (case extinf_title extinf of
                             None \<Rightarrow> js ''Unknown''
                           | Some t \<Rightarrow> if t = [] then js ''Unknown'' else t))
             else None))"

section \<open>Well-formed strings and the relay's query parameter\<close>

text \<open>
  A string is well formed when every surrogate code unit is part of a pair. The text
  of an HTTP response, decoded by the platform, always is.
\<close>

fun well_formed :: "jsstring \<Rightarrow> bool" where
  "well_formed [] = True"
| "well_formed (c # cs) =
     (if is_high_surrogate c then
        (case cs of [] \<Rightarrow> False | d # ds \<Rightarrow> is_low_surrogate d \<and> well_formed ds)
      else \<not> is_low_surrogate c \<and> well_formed cs)"

definition escaped_char :: "jschar \<Rightarrow> bool" where
  "escaped_char c \<longleftrightarrow> uri_unescaped c \<or> c = 0x25"

text \<open>
  How the relay reads \<^verbatim>\<open>req.query.url\<close> back from a relay URL. The query parser belongs
  to the web framework, not to this repository; it is written here as the framework
  documents it: the value of the parameter ends at \<^verbatim>\<open>&\<close> (or at the fragment), a \<^verbatim>\<open>+\<close> is
  a space, and the value is percent-decoded, or kept as it is when the decoding throws.
\<close>

definition stream_url_parameter :: "jsstring \<Rightarrow> jsstring option" where
  "stream_url_parameter streamUrl =
     (if startsWith streamUrl (js ''/api/stream?url='') then
        (let raw = plus_to_space (takeWhile (\<lambda>c. c \<noteq> 0x26 \<and> c \<noteq> 0x23) (drop 16 streamUrl))
         in case decodeURIComponent raw of Inl e \<Rightarrow> Some raw | Inr v \<Rightarrow> Some v)
      else None)"

section \<open>The lines of a rewritten manifest\<close>

text \<open>
  What \<^verbatim>\<open>rewriteManifestWithProxy\<close> does to one line, as a relation between the line and
  the line of the output: a line that, trimmed, is empty or begins with \<^verbatim>\<open>#\<close> or \<^verbatim>\<open>DATA:\<close>
  becomes its trimmed form; any other line becomes \<^verbatim>\<open>/api/stream?url=\<close> followed by the
  percent-encoding of the URL that the platform resolves it to against the base.
\<close>

definition passes_through :: "jsstring \<Rightarrow> bool" where
  "passes_through trimmed \<longleftrightarrow>
     trimmed = [] \<or> startsWith trimmed (js ''#'') \<or> startsWith trimmed (js ''DATA:'')"

definition rewritten_as :: "url_parser \<Rightarrow> jsstring \<Rightarrow> jsstring \<Rightarrow> jsstring \<Rightarrow> bool" where
  "rewritten_as new_URL base line out_line \<longleftrightarrow>
     (if passes_through (trim line) then out_line = trim line
      else
        (case new_URL (trim line) (Some base) of
           None \<Rightarrow> False
         | Some absolute \<Rightarrow>
             (case encodeURIComponent absolute of
                Inl e \<Rightarrow> False
              | Inr enc \<Rightarrow> out_line = js ''/api/stream?url='' @ enc)))"

text \<open>
  A line the rewriter can handle: it passes through, or the platform resolves it to a
  well-formed string (a serialised URL is ASCII).
\<close>

definition rewritable :: "url_parser \<Rightarrow> jsstring \<Rightarrow> jsstring \<Rightarrow> bool" where
  "rewritable new_URL base line \<longleftrightarrow>
     passes_through (trim line) \<or>
     (case new_URL (trim line) (Some base) of None \<Rightarrow> False | Some absolute \<Rightarrow> well_formed absolute)"

text \<open>A line that \<^verbatim>\<open>split(/\r?\n/)\<close> gives back as it is: no line feed in it, no carriage
  return at its end.\<close>

definition line_safe :: "jsstring \<Rightarrow> bool" where
  "line_safe l \<longleftrightarrow> 0x0A \<notin> set l \<and> (l = [] \<or> last l \<noteq> 0x0D)"

section \<open>Example playlists and manifests\<close>

definition playlist_example :: jsstring where
  "playlist_example =
     join [0x0A]
       [js ''#EXTM3U'', js ''#EXTINF:-1,A'', js ''#EXTINF:-1,B'', js '''', js ''#EXTVLCOPT:x'',
        js ''  http://x/b.ts  '', js ''http://x/orphan.ts'', js ''#EXTINF:-1,C'']"

definition playlist_scenario :: jsstring where
  \<open>playlist_scenario =
     js ''#EXTINF:-1 tvg-logo="http://x/logo.png",Channel One'' @ [0x0A] @
     js ''http://x/stream1.ts'' @ [0x0A]\<close>

definition playlist_named :: jsstring where
  \<open>playlist_named =
     js ''#EXTINF:-1 name="X",Title'' @ [0x0A] @ js ''http://x/a.ts''\<close>

text \<open>
  A stand-in for the URL parser of the platform that knows two inputs, and answers on
  them as the platform does: the absolute URL of a manifest, and one segment name
  relative to it.
\<close>

definition example_URL :: url_parser where
  "example_URL input base =
     (if base = None \<and> input = js ''http://x/live/a.m3u8'' then Some input
      else if base = Some (js ''http://x/live/a.m3u8'') \<and> input = js ''seg1.ts''
      then Some (js ''http://x/live/seg1.ts'')
      else None)"

definition manifest_example :: jsstring where
  "manifest_example =
     js '' #EXTM3U'' @ [0x0D, 0x0A] @ js ''#EXTINF:4,'' @ [0x0D, 0x0A] @ js ''seg1.ts'' @
     [0x0D, 0x0A, 0x0D, 0x0A] @ js ''DATA:x''"

section \<open>Properties of the metadata cache\<close>

text \<open>
  C3, as the code has it. An entry stored by \<^verbatim>\<open>setCache\<close> at time \<open>T\<close> is returned
  unchanged, and the map left as it is, by every read at a time up to and including
  \<open>T + 60000\<close>; a read at a time strictly after \<open>T + 60000\<close> reports it absent and
  deletes the key from the map.
\<close>

theorem getCache_setCache_ttl:
  "(now \<le> T + 60000 \<longrightarrow>
      getCache now k (setCache T k v m) = (Some v, setCache T k v m)) \<and>
   (T + 60000 < now \<longrightarrow>
      fst (getCache now k (setCache T k v m)) = None \<and>
      snd (getCache now k (setCache T k v m)) k = None \<and>
      (\<forall>k'. k' \<noteq> k \<longrightarrow> snd (getCache now k (setCache T k v m)) k' = m k'))"
  by (simp add: getCache_def setCache_def CACHE_TTL_MS_def)

theorem getCache_setCache_ttl_witness:
  "getCache 61000 (js ''tv:popular:1'') (setCache 1000 (js ''tv:popular:1'') (7::nat) Map.empty)
     = (Some 7, setCache 1000 (js ''tv:popular:1'') 7 Map.empty) \<and>
   fst (getCache 61001 (js ''tv:popular:1'') (setCache 1000 (js ''tv:popular:1'') (7::nat) Map.empty))
     = None \<and>
   snd (getCache 61001 (js ''tv:popular:1'') (setCache 1000 (js ''tv:popular:1'') (7::nat) Map.empty))
     (js ''tv:popular:1'') = None"
  using getCache_setCache_ttl [of 61000 1000 "js ''tv:popular:1''" "7::nat" Map.empty]
    getCache_setCache_ttl [of 61001 1000 "js ''tv:popular:1''" "7::nat" Map.empty]
  by simp

text \<open>
  As the specification words it, the property fails at the boundary: a read at exactly
  \<open>T + TTL\<close> still returns the value, since the code compares with \<^verbatim>\<open>>\<close>.
\<close>

theorem getCache_at_expiry_counterexample:
  "(1000 + CACHE_TTL_MS \<ge> 1000 + CACHE_TTL_MS) \<and>
   fst (getCache (1000 + CACHE_TTL_MS) (js ''tv:popular:1'')
          (setCache 1000 (js ''tv:popular:1'') (7::nat) Map.empty)) = Some 7"
  by (simp add: getCache_def setCache_def)

section \<open>Properties of the stream relay's classification\<close>

text \<open>
  C10. Classification is case-sensitive substring containment: an upstream response
  whose content-type contains the lower-case \<^verbatim>\<open>application/x-mpegurl\<close> and none of the
  three markers \<^verbatim>\<open>application/vnd.apple.mpegurl\<close>, \<^verbatim>\<open>application/x-mpegURL\<close>,
  \<^verbatim>\<open>application/octet-stream\<close> is no manifest for \<^verbatim>\<open>isManifest\<close>, and the relay passes
  its body through unchanged under the original content-type, without rewriting.
\<close>

theorem lowercase_mpegurl_is_streamed:
  assumes "ok upstream" and "content_type upstream = Some ct"
    and "includes_str ct (js ''application/x-mpegurl'')"
    and "\<not> includes_str ct (js ''application/vnd.apple.mpegurl'')"
    and "\<not> includes_str ct (js ''application/x-mpegURL'')"
    and "\<not> includes_str ct (js ''application/octet-stream'')"
  shows "\<not> isManifest ct \<and>
         relay_upstream new_URL text_of target upstream = StreamResponse ct (body upstream)"
  using assms by (simp add: isManifest_def relay_upstream_def)

theorem lowercase_mpegurl_is_streamed_witness:
  "includes_str (js ''application/x-mpegurl'') (js ''application/x-mpegurl'') \<and>
   \<not> isManifest (js ''application/x-mpegurl'') \<and>
   relay_upstream (\<lambda>s b. Some s) (\<lambda>octets. map (\<lambda>b. of_nat (unat b)) octets)
     (js ''http://x/live.m3u8'')
     \<lparr>ok = True, status = 200, content_type = Some (js ''application/x-mpegurl''),
      body = [0x23, 0x45, 0x58, 0x54]\<rparr>
   = StreamResponse (js ''application/x-mpegurl'') [0x23, 0x45, 0x58, 0x54]"
proof -
  let ?ct = "js ''application/x-mpegurl''"
  have a: "includes_str ?ct (js ''application/x-mpegurl'')"
    by (simp add: js_def)
  have b: "\<not> includes_str ?ct (js ''application/vnd.apple.mpegurl'')"
    by (simp add: js_def)
  have c: "\<not> includes_str ?ct (js ''application/x-mpegURL'')"
    by (simp add: js_def)
  have d: "\<not> includes_str ?ct (js ''application/octet-stream'')"
    by (simp add: js_def)
  show ?thesis
    using a lowercase_mpegurl_is_streamed
      [of "\<lparr>ok = True, status = 200, content_type = Some ?ct,
             body = [0x23, 0x45, 0x58, 0x54]\<rparr>" ?ct, OF _ _ a b c d]
    by simp
qed

section \<open>Properties of the lobster resolver\<close>

lemma lobster_urls_empty: "lobster_urls p [] = []"
  by (simp add: lobster_urls_def collectUrls_def parseJsonFromText_def Set_values_def)

text \<open>
  C4. When the lobster subprocess fails with an error \<open>E1\<close> and the vidsrc fallback
  fails as well (with \<open>E2\<close>, or is not attempted because the token is not set),
  \<^verbatim>\<open>resolveWithLobster\<close> throws \<open>E1\<close>. When the subprocess succeeds, no URL is found in
  its output, and the fallback fails with \<open>E2\<close>, no primary error was captured and the
  error thrown is built from the message of \<open>E2\<close>.
\<close>

theorem lobster_error_precedence:
  "(runCommand p (js ''lobster'') (lobster_args query quality) = Inl E1 \<and>
    (truthy_string (TMDB_TOKEN p) = None \<or> resolveWithVidsrc p query (js ''1'') type = Inl E2)
    \<longrightarrow> resolveWithLobster p query quality type = Inl E1) \<and>
   (runCommand p (js ''lobster'') (lobster_args query quality) = Inr stdout \<and>
    lobster_urls p stdout = [] \<and> truthy_string (TMDB_TOKEN p) \<noteq> None \<and>
    resolveWithVidsrc p query (js ''1'') type = Inl E2
    \<longrightarrow> resolveWithLobster p query quality type =
          Inl (Error (js ''lobster returned no URLs; fallback failed: '' @ message E2)))"
  by (auto simp: resolveWithLobster_def run_lobster_def lobster_urls_empty or_else_def)

lemma silent_lobster_urls: "lobster_urls silent_lobster (js ''no results'') = []"
  by code_simp

theorem lobster_error_precedence_witness:
  "resolveWithLobster failing_lobster (js ''dune'') None (js ''movies'') =
     Inl (Error (js ''lobster exited with code 1'')) \<and>
   resolveWithLobster silent_lobster (js ''dune'') None (js ''movies'') =
     Inl (Error (js ''lobster returned no URLs; fallback failed: No matching title found''))"
  using lobster_error_precedence [of failing_lobster "js ''dune''" None
      "Error (js ''lobster exited with code 1'')" "js ''movies''"
      "Error (js ''No matching title found'')" "[]"]
    lobster_error_precedence [of silent_lobster "js ''dune''" None
      "Error (js ''lobster exited with code 1'')" "js ''movies''"
      "Error (js ''No matching title found'')" "js ''no results''"]
    silent_lobster_urls
  by (simp add: failing_lobster_def silent_lobster_def truthy_string_def js_def)

section \<open>Properties of the MAC address validation\<close>

lemma mac_groups_length: "mac_groups n s = Some r \<Longrightarrow> length s = 3 * n + length r"
  by (induction n s rule: mac_groups.induct) (auto split: if_splits)

lemma length17:
  assumes "length s = 17"
  obtains x0 x1 x2 x3 x4 x5 x6 x7 x8 x9 x10 x11 x12 x13 x14 x15 x16
  where "s = [x0, x1, x2, x3, x4, x5, x6, x7, x8, x9, x10, x11, x12, x13, x14, x15, x16]"
  using assms by (auto simp: numeral_eq_Suc length_Suc_conv)

lemma upt17: "[0..<17] = [0, 1, 2, 3, 4, 5, 6, 7, 8, 9, 10, 11, 12, 13, 14, 15, 16]"
  by (simp add: upt_rec)

lemma macRegex_test_format: "macRegex_test s \<longleftrightarrow> mac_format s"
proof (cases "length s = 17")
  case True
  then obtain x0 x1 x2 x3 x4 x5 x6 x7 x8 x9 x10 x11 x12 x13 x14 x15 x16
    where s: "s = [x0, x1, x2, x3, x4, x5, x6, x7, x8, x9, x10, x11, x12, x13, x14, x15, x16]"
    by (rule length17)
  have five: "mac_groups 5 s =
    (if is_hex_digit x0 \<and> is_hex_digit x1 \<and> is_mac_separator x2 \<and>
        is_hex_digit x3 \<and> is_hex_digit x4 \<and> is_mac_separator x5 \<and>
        is_hex_digit x6 \<and> is_hex_digit x7 \<and> is_mac_separator x8 \<and>
        is_hex_digit x9 \<and> is_hex_digit x10 \<and> is_mac_separator x11 \<and>
        is_hex_digit x12 \<and> is_hex_digit x13 \<and> is_mac_separator x14
     then Some [x15, x16] else None)"
    by (simp add: s eval_nat_numeral)
  show ?thesis
    unfolding macRegex_test_def mac_format_def five upt17
    by (auto simp: s)
next
  case False
  have "mac_groups 5 s \<noteq> Some [a, b]" for a b
    using False mac_groups_length [of 5 s "[a, b]"] by auto
  then have "\<not> (case mac_groups 5 s of Some [a, b] \<Rightarrow> is_hex_digit a \<and> is_hex_digit b | _ \<Rightarrow> False)"
    by (auto split: option.splits list.splits)
  with False show ?thesis by (simp add: macRegex_test_def mac_format_def)
qed

lemma hex_digit_ascii: "is_hex_digit c \<Longrightarrow> c < 0x80"
  by (auto simp: is_hex_digit_def word_le_nat_alt word_less_nat_alt)

lemma mac_separator_ascii: "is_mac_separator c \<Longrightarrow> c < 0x80"
  by (auto simp: is_mac_separator_def)

lemma mac_groups_ascii:
  "mac_groups n s = Some r \<Longrightarrow> list_all (\<lambda>c. c < 0x80) r \<Longrightarrow> list_all (\<lambda>c. c < 0x80) s"
  by (induction n s rule: mac_groups.induct)
     (auto split: if_splits dest: hex_digit_ascii mac_separator_ascii)

text \<open>
  A value that passes \<^verbatim>\<open>macRegex\<close> is ASCII, so that upper-casing its letters \<^verbatim>\<open>a\<close> to \<^verbatim>\<open>z\<close>
  is all that \<^verbatim>\<open>toUpperCase\<close> does to it.
\<close>

lemma macRegex_test_ascii:
  assumes "macRegex_test s"
  shows "list_all (\<lambda>c. c < 0x80) s"
proof (cases "length s = 12 \<and> list_all is_hex_digit s")
  case True
  then show ?thesis by (auto simp: list_all_iff dest: hex_digit_ascii)
next
  case False
  with assms obtain a b where g: "mac_groups 5 s = Some [a, b]"
    and "is_hex_digit a" "is_hex_digit b"
    by (auto simp: macRegex_test_def split: option.splits list.splits)
  then have "list_all (\<lambda>c. c < 0x80) [a, b]" by (simp add: hex_digit_ascii)
  with g show ?thesis by (rule mac_groups_ascii)
qed

text \<open>
  C7, as the code has it. A non-empty \<^verbatim>\<open>mac\<close> parameter is accepted, and the playlist
  of the provider fetched for it, exactly when it is six pairs of hexadecimal digits
  with a colon or a hyphen after each of the first five (the five separators need not
  be the same), or twelve hexadecimal digits; every other non-empty value is answered
  with status 400 and the body \<^verbatim>\<open>{"error":"Invalid MAC address format"}\<close>. An empty
  \<^verbatim>\<open>mac\<close> parameter is treated as absent.
\<close>

theorem channels_mac_validation:
  \<open>(mac \<noteq> [] \<and> mac_format mac \<longrightarrow>
      channels_source new_URL (Some mac) playlist =
        FetchMacPlaylist
          (js ''http://sm4k.688.org/get.php?username='' @ formattedMac mac @
           js ''&password='' @ formattedMac mac @ js ''&type=m3u_plus&output=ts'')) \<and>
   (mac \<noteq> [] \<and> \<not> mac_format mac \<longrightarrow>
      channels_source new_URL (Some mac) playlist =
        Respond 400 (js ''{"error":"Invalid MAC address format"}'')) \<and>
   channels_source new_URL (Some []) playlist = channels_source new_URL None playlist\<close>
  by (simp add: channels_source_def truthy_string_def macRegex_test_format)

lemma mixed_separators_format: "mac_format (js ''AA:BB-CC:DD-EE:FF'')"
  by code_simp

lemma not_a_mac_format: "\<not> mac_format (js ''not-a-mac'')"
  by code_simp

lemma mixed_separators_formatted: "formattedMac (js ''AA:BB-CC:DD-EE:FF'') = js ''AABBCCDDEEFF''"
  by code_simp

theorem channels_mac_validation_witness:
  \<open>channels_source (\<lambda>s b. None) (Some (js ''AA:BB-CC:DD-EE:FF'')) None =
     FetchMacPlaylist
       (js ''http://sm4k.688.org/get.php?username='' @ js ''AABBCCDDEEFF'' @
        js ''&password='' @ js ''AABBCCDDEEFF'' @ js ''&type=m3u_plus&output=ts'') \<and>
   channels_source (\<lambda>s b. None) (Some (js ''not-a-mac'')) None =
     Respond 400 (js ''{"error":"Invalid MAC address format"}'')\<close>
  using channels_mac_validation [of "js ''AA:BB-CC:DD-EE:FF''" "\<lambda>s b. None" None]
    channels_mac_validation [of "js ''not-a-mac''" "\<lambda>s b. None" None]
    mixed_separators_format not_a_mac_format mixed_separators_formatted
  by (simp add: js_def)

text \<open>
  As the specification words it, the property fails on mixed separators: the value below
  is none of the three stated formats, and it is accepted.
\<close>

theorem mixed_separators_accepted_counterexample:
  "\<not> claimed_mac_format (js ''AA:BB-CC:DD-EE:FF'') \<and>
   channels_source (\<lambda>s b. None) (Some (js ''AA:BB-CC:DD-EE:FF'')) None =
     FetchMacPlaylist
       (js ''http://sm4k.688.org/get.php?username=AABBCCDDEEFF&password=AABBCCDDEEFF&type=m3u_plus&output=ts'')"
  by code_simp

section \<open>Properties of the media URL extraction\<close>

lemma upper_ascii_letter:
  "0x61 \<le> c \<Longrightarrow> c \<le> 0x7A \<Longrightarrow> 0x41 \<le> upper_ascii c \<and> upper_ascii c \<le> 0x5A"
  by (auto simp: upper_ascii_def word_le_nat_alt unat_sub)

lemma letter_url_char: "0x61 \<le> c \<Longrightarrow> c \<le> 0x7A \<Longrightarrow> url_char c"
  by (auto simp: url_char_def is_white_space_def word_le_nat_alt)

lemma capital_url_char: "0x41 \<le> c \<Longrightarrow> c \<le> 0x5A \<Longrightarrow> url_char c"
  by (auto simp: url_char_def is_white_space_def word_le_nat_alt)

lemma ci_eq_url_char:
  assumes "ci_eq c p" and "url_char p"
  shows "url_char c"
proof (cases "0x61 \<le> c \<and> c \<le> 0x7A")
  case True
  then show ?thesis by (simp add: letter_url_char)
next
  case False
  note c = this
  show ?thesis
  proof (cases "0x61 \<le> p \<and> p \<le> 0x7A")
    case True
    with upper_ascii_letter [of p] have "0x41 \<le> upper_ascii p \<and> upper_ascii p \<le> 0x5A" by simp
    moreover from c assms(1) have "upper_ascii p = c" by (auto simp: ci_eq_def upper_ascii_def)
    ultimately show ?thesis by (simp add: capital_url_char)
  next
    case False
    with c assms show ?thesis by (auto simp: ci_eq_def upper_ascii_def)
  qed
qed

lemma match_ci_char:
  "match_ci p t =
     (if length p \<le> length t \<and> list_all2 ci_eq (take (length p) t) p
      then Some (drop (length p) t) else None)"
  by (induction p t rule: match_ci.induct) auto

lemma list_all2_ci_url_char:
  "list_all2 ci_eq m p \<Longrightarrow> list_all url_char p \<Longrightarrow> list_all url_char m"
  by (induction m p rule: list_all2_induct) (auto intro: ci_eq_url_char)

lemma match_ci_split:
  assumes "match_ci p t = Some r"
  obtains m where "t = m @ r" and "list_all2 ci_eq m p"
proof -
  from assms have "length p \<le> length t" and "list_all2 ci_eq (take (length p) t) p"
    and "r = drop (length p) t"
    by (auto simp: match_ci_char split: if_splits)
  then show ?thesis using that [of "take (length p) t"] by simp
qed

lemma first_match_split:
  assumes "first_match ps t = Some r"
  obtains p where "p \<in> set ps" and "match_ci p t = Some r"
  using assms by (induction ps) (auto split: option.splits)

lemma match_ext_split:
  assumes "match_ext t = Some r"
  obtains m e where "t = m @ r" and "e \<in> set media_extensions" and "list_all2 ci_eq m e"
proof (cases "match_ci (js ''m3u'') t")
  case None
  with assms have "first_match [js ''mp4'', js ''mov'', js ''mkv'', js ''avi'', js ''flv'', js ''mpd'',
             js ''webm'', js ''ts''] t = Some r"
    by (simp add: match_ext_def)
  then obtain p where p: "p \<in> set [js ''mp4'', js ''mov'', js ''mkv'', js ''avi'', js ''flv'',
      js ''mpd'', js ''webm'', js ''ts'']" and m: "match_ci p t = Some r"
    by (rule first_match_split)
  from m obtain m' where "t = m' @ r" "list_all2 ci_eq m' p" by (rule match_ci_split)
  moreover from p have "p \<in> set media_extensions" by (auto simp: media_extensions_def)
  ultimately show ?thesis using that by blast
next
  case (Some r1)
  then obtain m1 where m1: "t = m1 @ r1" "list_all2 ci_eq m1 (js ''m3u'')" by (rule match_ci_split)
  show ?thesis
  proof (cases "match_ci (js ''8'') r1")
    case None
    with Some assms have "r = r1" by (simp add: match_ext_def)
    with m1 show ?thesis using that [of m1 "js ''m3u''"] by (simp add: media_extensions_def)
  next
    case (Some r2)
    then obtain m2 where m2: "r1 = m2 @ r2" "list_all2 ci_eq m2 (js ''8'')" by (rule match_ci_split)
    from Some \<open>match_ci (js ''m3u'') t = Some r1\<close> assms have "r = r2" by (simp add: match_ext_def)
    moreover from m1 m2 have "list_all2 ci_eq (m1 @ m2) (js ''m3u'' @ js ''8'')"
      by (simp add: list_all2_appendI)
    moreover have "js ''m3u'' @ js ''8'' = js ''m3u8''" by (simp add: js_def)
    ultimately show ?thesis using that [of "m1 @ m2" "js ''m3u8''"] m1 m2
      by (simp add: media_extensions_def)
  qed
qed

lemma startsWith_append: "startsWith (p @ r) p"
  by (induction p) simp_all

lemma includes_str_append: "includes_str (a @ sub @ b) sub"
proof (induction a)
  case Nil
  show ?case by (cases "sub @ b") (use startsWith_append [of sub b] in auto)
next
  case (Cons c a)
  then show ?case by simp
qed

lemma list_all2_ci_upper: "list_all2 ci_eq m e \<Longrightarrow> map upper_ascii m = map upper_ascii e"
  by (induction m e rule: list_all2_induct) (simp_all add: ci_eq_def)

lemma contains_ci_append: "list_all2 ci_eq m e \<Longrightarrow> contains_ci (a @ m @ b) e"
  using includes_str_append [of "map upper_ascii a" "map upper_ascii e" "map upper_ascii b"]
  by (simp add: contains_ci_def list_all2_ci_upper)

lemma starts_with_ci_append: "list_all2 ci_eq m p \<Longrightarrow> starts_with_ci (m @ b) p"
  using startsWith_append [of "map upper_ascii p" "map upper_ascii b"]
  by (simp add: starts_with_ci_def list_all2_ci_upper)

lemma media_extensions_url_chars: "e \<in> set media_extensions \<Longrightarrow> list_all url_char e"
  by (auto simp: media_extensions_def js_def url_char_def is_white_space_def)

lemma ext_after_lazy_split:
  assumes "ext_after_lazy t = Some r"
  obtains m where "t = m @ r" and "list_all url_char m" and "list_ex (contains_ci m) media_extensions"
  using assms
proof (induction t arbitrary: thesis)
  case Nil
  then show ?case by simp
next
  case (Cons c cs)
  show ?case
  proof (cases "match_ext (c # cs)")
    case None
    with Cons.prems(2) have c: "url_char c" and "ext_after_lazy cs = Some r"
      by (auto split: if_splits)
    then obtain m where m: "cs = m @ r" "list_all url_char m" "list_ex (contains_ci m) media_extensions"
      using Cons.IH by blast
    from m(3) obtain e where e: "e \<in> set media_extensions" "contains_ci m e"
      by (auto simp: list_ex_iff)
    then have "contains_ci (c # m) e" by (simp add: contains_ci_def)
    with e have "list_ex (contains_ci (c # m)) media_extensions" by (auto simp: list_ex_iff)
    with m c show ?thesis using Cons.prems(1) [of "c # m"] by simp
  next
    case (Some x)
    then obtain m0 e where m0: "c # cs = m0 @ x" "e \<in> set media_extensions" "list_all2 ci_eq m0 e"
      by (rule match_ext_split)
    from Some Cons.prems(2) have r: "r = dropWhile url_char x" by simp
    let ?m = "m0 @ takeWhile url_char x"
    have "c # cs = ?m @ r" by (simp add: m0 r)
    moreover have "list_all url_char ?m"
      using list_all2_ci_url_char [OF m0(3) media_extensions_url_chars [OF m0(2)]]
      by (auto simp: list_all_iff dest: set_takeWhileD)
    moreover have "contains_ci ?m e"
      using contains_ci_append [OF m0(3), of "[]" "takeWhile url_char x"] by simp
    then have "list_ex (contains_ci ?m) media_extensions" using m0(2) by (auto simp: list_ex_iff)
    ultimately show ?thesis using Cons.prems(1) by blast
  qed
qed

lemma contains_ci_prepend: "contains_ci m e \<Longrightarrow> contains_ci (a @ m) e"
  by (induction a) (simp_all add: contains_ci_def)

lemma match_after_scheme_split:
  assumes "match_after_scheme t = Some r"
  obtains m where "t = m @ r" and "starts_with_ci m (js ''://'')" and "list_all url_char m"
    and "list_ex (contains_ci m) media_extensions"
proof -
  from assms obtain c cs where sep: "match_ci (js ''://'') t = Some (c # cs)"
    and c: "url_char c" and lazy: "ext_after_lazy cs = Some r"
    by (auto simp: match_after_scheme_def split: option.splits list.splits if_splits)
  from sep obtain m0 where m0: "t = m0 @ c # cs" "list_all2 ci_eq m0 (js ''://'')"
    by (rule match_ci_split)
  from lazy obtain m1 where m1: "cs = m1 @ r" "list_all url_char m1"
    "list_ex (contains_ci m1) media_extensions"
    by (rule ext_after_lazy_split)
  let ?m = "m0 @ c # m1"
  have "list_all url_char (js ''://'')" by (simp add: js_def url_char_def is_white_space_def)
  with m0(2) have "list_all url_char m0" by (rule list_all2_ci_url_char)
  with c m1(2) have "list_all url_char ?m" by simp
  moreover have "t = ?m @ r" by (simp add: m0 m1)
  moreover have "starts_with_ci ?m (js ''://'')" using m0(2) by (rule starts_with_ci_append)
  moreover from m1(3) have "list_ex (contains_ci ?m) media_extensions"
    using contains_ci_prepend [of m1 _ "m0 @ [c]"] by (auto simp: list_ex_iff)
  ultimately show ?thesis using that by blast
qed

lemma starts_with_ci_join:
  assumes "list_all2 ci_eq m p" and "starts_with_ci r q"
  shows "starts_with_ci (m @ r) (p @ q)"
proof -
  have "startsWith (a @ b) (a @ c) = startsWith b c" for a b c :: jsstring
    by (induction a) simp_all
  then show ?thesis
    using assms by (simp add: starts_with_ci_def list_all2_ci_upper)
qed

lemma match_url_split:
  assumes "match_url t = Some r"
  obtains m where "t = m @ r" and "has_http_scheme m" and "list_all url_char m"
    and "list_ex (contains_ci m) media_extensions"
proof -
  from assms obtain r0 where http: "match_ci (js ''http'') t = Some r0"
    by (auto simp: match_url_def split: option.splits)
  then obtain m0 where m0: "t = m0 @ r0" "list_all2 ci_eq m0 (js ''http'')"
    by (rule match_ci_split)
  have u0: "list_all url_char m0"
    using m0(2) by (rule list_all2_ci_url_char) (simp add: js_def url_char_def is_white_space_def)
  from assms http consider
    (with_s) r1 where "match_ci (js ''s'') r0 = Some r1" "match_after_scheme r1 = Some r"
    | (without_s) "match_after_scheme r0 = Some r"
    by (auto simp: match_url_def split: option.splits)
  then show ?thesis
  proof cases
    case with_s
    from with_s(1) obtain m1 where m1: "r0 = m1 @ r1" "list_all2 ci_eq m1 (js ''s'')"
      by (rule match_ci_split)
    from with_s(2) obtain m2 where m2: "r1 = m2 @ r" "starts_with_ci m2 (js ''://'')"
      "list_all url_char m2" "list_ex (contains_ci m2) media_extensions"
      by (rule match_after_scheme_split)
    let ?m = "(m0 @ m1) @ m2"
    have "list_all url_char m1"
      using m1(2) by (rule list_all2_ci_url_char) (simp add: js_def url_char_def is_white_space_def)
    with u0 m2(3) have "list_all url_char ?m" by simp
    moreover have "t = ?m @ r" by (simp add: m0 m1 m2)
    moreover have "list_all2 ci_eq (m0 @ m1) (js ''http'' @ js ''s'')"
      using m0(2) m1(2) by (rule list_all2_appendI)
    then have "starts_with_ci ?m ((js ''http'' @ js ''s'') @ js ''://'')"
      using m2(2) by (rule starts_with_ci_join)
    then have "has_http_scheme ?m" by (simp add: has_http_scheme_def js_def)
    moreover from m2(4) have "list_ex (contains_ci ?m) media_extensions"
      using contains_ci_prepend [of m2 _ "m0 @ m1"] by (auto simp: list_ex_iff)
    ultimately show ?thesis using that by blast
  next
    case without_s
    then obtain m2 where m2: "r0 = m2 @ r" "starts_with_ci m2 (js ''://'')"
      "list_all url_char m2" "list_ex (contains_ci m2) media_extensions"
      by (rule match_after_scheme_split)
    let ?m = "m0 @ m2"
    from u0 m2(3) have "list_all url_char ?m" by simp
    moreover have "t = ?m @ r" by (simp add: m0 m2)
    moreover have "starts_with_ci ?m (js ''http'' @ js ''://'')"
      using m0(2) m2(2) by (rule starts_with_ci_join)
    then have "has_http_scheme ?m" by (simp add: has_http_scheme_def js_def)
    moreover from m2(4) have "list_ex (contains_ci ?m) media_extensions"
      using contains_ci_prepend [of m2 _ m0] by (auto simp: list_ex_iff)
    ultimately show ?thesis using that by blast
  qed
qed

lemma url_matches_shape:
  "u \<in> set (url_matches t) \<Longrightarrow>
   has_http_scheme u \<and> list_all url_char u \<and> list_ex (contains_ci u) media_extensions"
proof (induction t rule: url_matches.induct)
  case 1
  then show ?case by simp
next
  case (2 c cs)
  show ?case
  proof (cases "match_url (c # cs)")
    case None
    with 2 show ?thesis by simp
  next
    case (Some rest)
    then obtain m where m: "c # cs = m @ rest" "has_http_scheme m" "list_all url_char m"
      "list_ex (contains_ci m) media_extensions"
      by (rule match_url_split)
    from m(1) have "length (c # cs) - length rest = length m"
      by (metis add_diff_cancel_right' length_append)
    then have "take (length (c # cs) - length rest) (c # cs) = m"
      using m(1) by (metis append_eq_conv_conj)
    with Some "2.prems" have "u = m \<or> u \<in> set (url_matches rest)" by auto
    with m "2.IH"(2) [OF Some] show ?thesis by blast
  qed
qed

lemma set_Set_values: "set (Set_values xs) = set xs"
proof -
  have "set (foldl (\<lambda>acc x. if x \<in> set acc then acc else acc @ [x]) acc xs) = set acc \<union> set xs"
    for acc :: "'a list"
    by (induction xs arbitrary: acc) auto
  then show ?thesis by (simp add: Set_values_def)
qed

text \<open>
  C6, as the code has it. Every string extracted by \<^verbatim>\<open>collectUrls\<close> begins with
  \<^verbatim>\<open>http://\<close> or \<^verbatim>\<open>https://\<close> in any letter case, contains no white space, quote or
  angle bracket, and contains one of the extensions \<^verbatim>\<open>m3u8\<close>, \<^verbatim>\<open>m3u\<close>, \<^verbatim>\<open>mp4\<close>, \<^verbatim>\<open>mov\<close>,
  \<^verbatim>\<open>mkv\<close>, \<^verbatim>\<open>avi\<close>, \<^verbatim>\<open>flv\<close>, \<^verbatim>\<open>mpd\<close>, \<^verbatim>\<open>webm\<close>, \<^verbatim>\<open>ts\<close> in any letter case; the extension
  need not be at its end.
\<close>

theorem collectUrls_shape:
  "u \<in> set (collectUrls text) \<Longrightarrow>
   has_http_scheme u \<and> list_all url_char u \<and> list_ex (contains_ci u) media_extensions"
  using url_matches_shape [of u "text"]
  by (simp add: collectUrls_def set_Set_values split: if_splits)

lemma collectUrls_with_query:
  "collectUrls (js ''src=https://cdn.example.com/video.mp4?token=abc>'') =
     [js ''https://cdn.example.com/video.mp4?token=abc'']"
  by code_simp

theorem collectUrls_shape_witness:
  "js ''https://cdn.example.com/video.mp4?token=abc'' \<in>
     set (collectUrls (js ''src=https://cdn.example.com/video.mp4?token=abc>'')) \<and>
   has_http_scheme (js ''https://cdn.example.com/video.mp4?token=abc'') \<and>
   list_all url_char (js ''https://cdn.example.com/video.mp4?token=abc'') \<and>
   list_ex (contains_ci (js ''https://cdn.example.com/video.mp4?token=abc'')) media_extensions"
  using collectUrls_shape [of "js ''https://cdn.example.com/video.mp4?token=abc''"
      "js ''src=https://cdn.example.com/video.mp4?token=abc>''"]
    collectUrls_with_query
  by simp

text \<open>
  As the specification words it, the property fails: a URL with a query string after the
  extension is extracted whole and ends in no extension; and an upper-case scheme is
  matched, so that the extracted string contains neither \<^verbatim>\<open>http://\<close> nor \<^verbatim>\<open>https://\<close>.
\<close>

theorem collectUrls_extension_not_last_counterexample:
  "collectUrls (js ''src=https://cdn.example.com/video.mp4?token=abc>'') =
     [js ''https://cdn.example.com/video.mp4?token=abc''] \<and>
   \<not> list_ex (endsWith (js ''https://cdn.example.com/video.mp4?token=abc'')) media_extensions \<and>
   collectUrls (js ''HTTP://X.COM/A.TS'') = [js ''HTTP://X.COM/A.TS''] \<and>
   \<not> includes_str (js ''HTTP://X.COM/A.TS'') (js ''http://'') \<and>
   \<not> includes_str (js ''HTTP://X.COM/A.TS'') (js ''https://'')"
  by code_simp

section \<open>Properties of the percent-encoding\<close>

lemma hex_value_hex_digit: assumes "d < 16" shows "hex_value (hex_digit d) = Some d"
proof -
  from assms have "d = 0 \<or> d = 1 \<or> d = 2 \<or> d = 3 \<or> d = 4 \<or> d = 5 \<or> d = 6 \<or> d = 7 \<or> d = 8 \<or>
     d = 9 \<or> d = 10 \<or> d = 11 \<or> d = 12 \<or> d = 13 \<or> d = 14 \<or> d = 15" by arith
  then show ?thesis by (elim disjE) (simp_all add: hex_value_def hex_digit_def)
qed

lemma parse_escape_percent_octet: "b < 256 \<Longrightarrow> parse_escape (percent_octet b) = Some b"
  by (simp add: percent_octet_def hex_value_hex_digit)

lemma utf16_units_unat: "utf16_units (unat (c::jschar)) = [c]"
  using unsigned_less [of c, where ?'a = nat]
  by (simp add: utf16_units_def)

lemma utf16_units_surrogate_pair:
  assumes "is_high_surrogate c" "is_low_surrogate d"
  shows "utf16_units (surrogate_pair c d) = [c, d]"
proof -
  define h l where "h = unat c - 0xD800" and "l = unat d - 0xDC00"
  have c: "unat c = 0xD800 + h" and d: "unat d = 0xDC00 + l" and l: "l < 0x400"
    using assms
    by (auto simp: h_def l_def is_high_surrogate_def is_low_surrogate_def word_le_nat_alt)
  have sp: "surrogate_pair c d = 0x10000 + (h * 0x400 + l)"
    by (simp add: surrogate_pair_def c d)
  have "(h * 0x400 + l) div 0x400 = h" "(h * 0x400 + l) mod 0x400 = l"
    using l by simp_all
  then have "utf16_units (surrogate_pair c d) = [of_nat (unat c), of_nat (unat d)]"
    unfolding utf16_units_def sp c d by simp
  then show ?thesis by simp
qed

lemma percent_octet_length: "length (percent_octet b) = 3"
  by (simp add: percent_octet_def)

lemma decode_percent_octet:
  assumes "b < 256"
  shows "decodeURIComponent (percent_octet b @ rest) =
     (let n = leading_ones b in
      if n = 0 then
        (case decodeURIComponent rest of Inl e \<Rightarrow> Inl e | Inr r \<Rightarrow> Inr (of_nat b # r))
      else if n = 1 \<or> n > 4 then Inl URIError
      else
        (case parse_escapes (n - 1) (take (3 * (n - 1)) rest) of
           None \<Rightarrow> Inl URIError
         | Some bs \<Rightarrow>
             (case utf8_code_point (b # bs) of
                None \<Rightarrow> Inl URIError
              | Some cp \<Rightarrow>
                  (case decodeURIComponent (drop (3 * (n - 1)) rest) of
                     Inl e \<Rightarrow> Inl e
                   | Inr r \<Rightarrow> Inr (utf16_units cp @ r)))))"
proof -
  have "parse_escape [0x25, hex_digit (b div 16), hex_digit (b mod 16)] = Some b"
    using parse_escape_percent_octet [OF assms] by (simp add: percent_octet_def)
  moreover have "drop 2 (hex_digit (b div 16) # hex_digit (b mod 16) # rest) = rest"
    by (simp add: numeral_2_eq_2)
  ultimately show ?thesis
    by (simp add: percent_octet_def Let_def del: parse_escape.simps cong: option.case_cong)
qed

lemma parse_escapes_octets:
  "\<forall>b \<in> set bs. b < 256 \<Longrightarrow>
   parse_escapes (length bs) (concat (map percent_octet bs)) = Some bs"
proof (induction bs)
  case Nil
  then show ?case by simp
next
  case (Cons b bs)
  have "take 3 (percent_octet b @ concat (map percent_octet bs)) = percent_octet b"
       "drop 3 (percent_octet b @ concat (map percent_octet bs)) = concat (map percent_octet bs)"
    by (simp_all add: percent_octet_length)
  with Cons show ?case by (simp add: parse_escape_percent_octet)
qed

lemma mod64_less: "(x::nat) mod 64 < 128"
  by arith

lemma split_three: "(cp::nat) div 0x1000 * 0x1000 + cp div 0x40 mod 0x40 * 0x40 + cp mod 0x40 = cp"
proof -
  have "cp div 0x1000 = cp div 0x40 div 0x40"
    by (simp add: div_mult2_eq [symmetric])
  moreover have "cp div 0x40 div 0x40 * 0x40 + cp div 0x40 mod 0x40 = cp div 0x40"
    by (rule div_mult_mod_eq)
  moreover have "cp div 0x40 * 0x40 + cp mod 0x40 = cp"
    by (rule div_mult_mod_eq)
  ultimately show ?thesis by linarith
qed

lemma split_four:
  "(cp::nat) div 0x40000 * 0x40000 + cp div 0x1000 mod 0x40 * 0x1000 +
     cp div 0x40 mod 0x40 * 0x40 + cp mod 0x40 = cp"
proof -
  have "cp div 0x40000 = cp div 0x1000 div 0x40"
    by (simp add: div_mult2_eq [symmetric])
  moreover have "cp div 0x1000 div 0x40 * 0x40 + cp div 0x1000 mod 0x40 = cp div 0x1000"
    by (rule div_mult_mod_eq)
  ultimately have "cp div 0x40000 * 0x40000 + cp div 0x1000 mod 0x40 * 0x1000 = cp div 0x1000 * 0x1000"
    by linarith
  then show ?thesis using split_three [of cp] by linarith
qed

lemma percent_octets_length: "length (concat (map percent_octet bs)) = 3 * length bs"
  by (induction bs) (simp_all add: percent_octet_length)

lemma decode_percent_sequence:
  assumes b: "b < 256" and bs: "\<forall>x \<in> set bs. x < 256"
    and n: "leading_ones b = Suc (length bs)" "bs \<noteq> []" "length bs \<le> 3"
    and cp: "utf8_code_point (b # bs) = Some cp"
  shows "decodeURIComponent (concat (map percent_octet (b # bs)) @ rest) =
     (case decodeURIComponent rest of Inl e \<Rightarrow> Inl e | Inr r \<Rightarrow> Inr (utf16_units cp @ r))"
proof -
  let ?tail = "concat (map percent_octet bs)"
  have t: "take (3 * length bs) (?tail @ rest) = ?tail"
    and d: "drop (3 * length bs) (?tail @ rest) = rest"
    by (simp_all add: percent_octets_length)
  have "decodeURIComponent (percent_octet b @ (?tail @ rest)) =
      (case decodeURIComponent rest of Inl e \<Rightarrow> Inl e | Inr r \<Rightarrow> Inr (utf16_units cp @ r))"
    unfolding decode_percent_octet [OF b]
    using n cp
    by (simp add: Let_def percent_octets_length parse_escapes_octets [OF bs]
        cong: option.case_cong sum.case_cong)
  then show ?thesis by simp
qed

lemma decode_percent_utf8:
  assumes "cp < 0x110000" and "\<not> (0xD800 \<le> cp \<and> cp \<le> 0xDFFF)"
  shows "decodeURIComponent (percent_utf8 cp @ rest) =
     (case decodeURIComponent rest of Inl e \<Rightarrow> Inl e | Inr r \<Rightarrow> Inr (utf16_units cp @ r))"
proof -
  consider (one) "cp < 0x80" | (two) "0x80 \<le> cp" "cp < 0x800"
    | (three) "0x800 \<le> cp" "cp < 0x10000" | (four) "0x10000 \<le> cp"
    by linarith
  then show ?thesis
  proof cases
    case one
    then have "utf8_octets cp = [cp]" by (simp add: utf8_octets_def)
    moreover have "leading_ones cp = 0" using one by (simp add: leading_ones_def)
    moreover have "utf16_units cp = [of_nat cp]" using one by (simp add: utf16_units_def)
    ultimately show ?thesis
      using one decode_percent_octet [of cp rest]
      by (simp add: percent_utf8_def cong: sum.case_cong)
  next
    case two
    let ?b = "0xC0 + cp div 0x40" and ?bs = "[0x80 + cp mod 0x40]"
    have "utf8_octets cp = ?b # ?bs" using two by (simp add: utf8_octets_def)
    moreover have "decodeURIComponent (concat (map percent_octet (?b # ?bs)) @ rest) =
      (case decodeURIComponent rest of Inl e \<Rightarrow> Inl e | Inr r \<Rightarrow> Inr (utf16_units cp @ r))"
    proof (rule decode_percent_sequence)
      show "?b < 256" using two by simp
      show "\<forall>x \<in> set ?bs. x < 256" by (simp add: mod64_less)
      show "leading_ones ?b = Suc (length ?bs)" using two by (simp add: leading_ones_def)
      show "utf8_code_point (?b # ?bs) = Some cp"
        using two by (simp add: is_continuation_def)
    qed simp_all
    ultimately show ?thesis by (simp add: percent_utf8_def)
  next
    case three
    let ?b = "0xE0 + cp div 0x1000"
    let ?bs = "[0x80 + cp div 0x40 mod 0x40, 0x80 + cp mod 0x40]"
    have "utf8_octets cp = ?b # ?bs" using three by (simp add: utf8_octets_def)
    moreover have "decodeURIComponent (concat (map percent_octet (?b # ?bs)) @ rest) =
      (case decodeURIComponent rest of Inl e \<Rightarrow> Inl e | Inr r \<Rightarrow> Inr (utf16_units cp @ r))"
    proof (rule decode_percent_sequence)
      show "?b < 256" using three by simp
      show "\<forall>x \<in> set ?bs. x < 256" by (simp add: mod64_less)
      show "leading_ones ?b = Suc (length ?bs)" using three by (simp add: leading_ones_def)
      from split_three [of cp] show "utf8_code_point (?b # ?bs) = Some cp"
        using three assms(2) by (simp add: is_continuation_def)
    qed simp_all
    ultimately show ?thesis by (simp add: percent_utf8_def)
  next
    case four
    let ?b = "0xF0 + cp div 0x40000"
    let ?bs = "[0x80 + cp div 0x1000 mod 0x40, 0x80 + cp div 0x40 mod 0x40, 0x80 + cp mod 0x40]"
    have "utf8_octets cp = ?b # ?bs" using four by (simp add: utf8_octets_def)
    moreover have "decodeURIComponent (concat (map percent_octet (?b # ?bs)) @ rest) =
      (case decodeURIComponent rest of Inl e \<Rightarrow> Inl e | Inr r \<Rightarrow> Inr (utf16_units cp @ r))"
    proof (rule decode_percent_sequence)
      show "?b < 256" using assms(1) by simp
      show "\<forall>x \<in> set ?bs. x < 256" by (simp add: mod64_less)
      show "leading_ones ?b = Suc (length ?bs)"
        using four assms(1) by (simp add: leading_ones_def)
      from split_four [of cp] show "utf8_code_point (?b # ?bs) = Some cp"
        using four assms(1) by (simp add: is_continuation_def)
    qed simp_all
    ultimately show ?thesis by (simp add: percent_utf8_def)
  qed
qed

lemma unescaped_not_percent: "uri_unescaped c \<Longrightarrow> c \<noteq> 0x25"
  by (auto simp: uri_unescaped_def is_alnum_def)

lemma not_surrogate_code_point:
  assumes "\<not> is_low_surrogate c" "\<not> is_high_surrogate c"
  shows "unat c < 0x110000 \<and> \<not> (0xD800 \<le> unat c \<and> unat c \<le> 0xDFFF)"
proof -
  have "unat c < 65536" using unsigned_less [of c, where ?'a = nat] by simp
  then show ?thesis
    using assms by (auto simp: is_low_surrogate_def is_high_surrogate_def word_le_nat_alt)
qed

lemma surrogate_pair_code_point:
  assumes "is_high_surrogate c" "is_low_surrogate d"
  shows "surrogate_pair c d < 0x110000 \<and>
         \<not> (0xD800 \<le> surrogate_pair c d \<and> surrogate_pair c d \<le> 0xDFFF)"
  using assms
  by (auto simp: surrogate_pair_def is_low_surrogate_def is_high_surrogate_def word_le_nat_alt)

lemma decode_encode:
  "encodeURIComponent s = Inr e \<Longrightarrow> decodeURIComponent e = Inr s"
proof (induction s arbitrary: e rule: encodeURIComponent.induct)
  case 1
  then show ?case by simp
next
  case (2 c cs)
  show ?case
  proof (cases "uri_unescaped c")
    case True
    with "2.prems" obtain r where r: "encodeURIComponent cs = Inr r" and e: "e = c # r"
      by (auto split: sum.splits)
    from "2.IH"(1) [OF True r] have "decodeURIComponent r = Inr cs" .
    with unescaped_not_percent [OF True] show ?thesis by (simp add: e)
  next
    case False
    note unesc = this
    show ?thesis
    proof (cases "is_low_surrogate c")
      case True
      with unesc "2.prems" show ?thesis by simp
    next
      case False
      note low = this
      show ?thesis
      proof (cases "is_high_surrogate c")
        case False
        with unesc low "2.prems" obtain r where r: "encodeURIComponent cs = Inr r"
          and e: "e = percent_utf8 (unat c) @ r"
          by (auto split: sum.splits)
        from "2.IH"(2) [OF unesc low False r] have "decodeURIComponent r = Inr cs" .
        with not_surrogate_code_point [OF low False] show ?thesis
          by (simp add: e decode_percent_utf8 utf16_units_unat)
      next
        case True
        with unesc low "2.prems" obtain d ds r where cs: "cs = d # ds"
          and d: "is_low_surrogate d"
          and r: "encodeURIComponent ds = Inr r"
          and e: "e = percent_utf8 (surrogate_pair c d) @ r"
          by (auto split: sum.splits list.splits if_splits)
        from "2.IH"(3) [OF unesc low _ cs _ r] True d
        have "decodeURIComponent r = Inr ds" by simp
        with surrogate_pair_code_point [OF True d] show ?thesis
          by (simp add: e cs decode_percent_utf8 utf16_units_surrogate_pair [OF True d])
      qed
    qed
  qed
qed

lemma map_result_Inr:
  "map_result f xs = Inr ys \<Longrightarrow> list_all2 (\<lambda>x y. f x = Inr y) xs ys"
  by (induction xs arbitrary: ys) (auto split: sum.splits)

lemma map_result_total:
  "\<forall>x \<in> set xs. \<exists>y. f x = Inr y \<Longrightarrow> \<exists>ys. map_result f xs = Inr ys"
  by (induction xs) (auto split: sum.splits)

lemma hex_digit_unescaped: assumes "d < 16" shows "uri_unescaped (hex_digit d)"
proof -
  from assms have "d = 0 \<or> d = 1 \<or> d = 2 \<or> d = 3 \<or> d = 4 \<or> d = 5 \<or> d = 6 \<or> d = 7 \<or> d = 8 \<or>
     d = 9 \<or> d = 10 \<or> d = 11 \<or> d = 12 \<or> d = 13 \<or> d = 14 \<or> d = 15" by arith
  then show ?thesis by (elim disjE) (simp_all add: hex_digit_def uri_unescaped_def is_alnum_def)
qed

lemma percent_octet_chars: "b < 256 \<Longrightarrow> list_all escaped_char (percent_octet b)"
  by (simp add: percent_octet_def escaped_char_def hex_digit_unescaped)

lemma utf8_octets_bound: "cp < 0x110000 \<Longrightarrow> b \<in> set (utf8_octets cp) \<Longrightarrow> b < 256"
  by (auto simp: utf8_octets_def mod64_less split: if_splits)

lemma percent_utf8_chars: "cp < 0x110000 \<Longrightarrow> list_all escaped_char (percent_utf8 cp)"
  using utf8_octets_bound [of cp] percent_octet_chars
  by (auto simp: percent_utf8_def list_all_iff)

lemma encode_chars: "encodeURIComponent s = Inr e \<Longrightarrow> list_all escaped_char e"
proof (induction s arbitrary: e rule: encodeURIComponent.induct)
  case 1
  then show ?case by simp
next
  case (2 c cs)
  show ?case
  proof (cases "uri_unescaped c")
    case True
    with "2.prems" obtain r where r: "encodeURIComponent cs = Inr r" and e: "e = c # r"
      by (auto split: sum.splits)
    from "2.IH"(1) [OF True r] True show ?thesis by (simp add: e escaped_char_def)
  next
    case False
    note unesc = this
    show ?thesis
    proof (cases "is_low_surrogate c")
      case True
      with unesc "2.prems" show ?thesis by simp
    next
      case False
      note low = this
      show ?thesis
      proof (cases "is_high_surrogate c")
        case False
        with unesc low "2.prems" obtain r where r: "encodeURIComponent cs = Inr r"
          and e: "e = percent_utf8 (unat c) @ r"
          by (auto split: sum.splits)
        from "2.IH"(2) [OF unesc low False r] not_surrogate_code_point [OF low False]
        show ?thesis by (simp add: e percent_utf8_chars)
      next
        case True
        with unesc low "2.prems" obtain d ds r where cs: "cs = d # ds"
          and d: "is_low_surrogate d"
          and r: "encodeURIComponent ds = Inr r"
          and e: "e = percent_utf8 (surrogate_pair c d) @ r"
          by (auto split: sum.splits list.splits if_splits)
        from "2.IH"(3) [OF unesc low _ cs _ r] True d
        have "list_all escaped_char r" by simp
        with surrogate_pair_code_point [OF True d] show ?thesis
          by (simp add: e percent_utf8_chars)
      qed
    qed
  qed
qed

lemma surrogate_escaped:
  "is_high_surrogate c \<or> is_low_surrogate c \<Longrightarrow> \<not> uri_unescaped c"
  by (auto simp: is_high_surrogate_def is_low_surrogate_def uri_unescaped_def is_alnum_def
      word_le_nat_alt)

lemma encode_well_formed: "well_formed s \<Longrightarrow> \<exists>e. encodeURIComponent s = Inr e"
proof (induction s rule: well_formed.induct)
  case 1
  then show ?case by simp
next
  case (2 c cs)
  show ?case
  proof (cases "is_high_surrogate c")
    case True
    with "2.prems" obtain d ds where cs: "cs = d # ds" and d: "is_low_surrogate d"
      and ds: "well_formed ds"
      by (auto split: list.splits)
    from "2.IH"(1) [OF True cs] ds obtain r where "encodeURIComponent ds = Inr r" by blast
    moreover have "\<not> is_low_surrogate c"
      using True by (auto simp: is_high_surrogate_def is_low_surrogate_def word_le_nat_alt)
    ultimately show ?thesis
      using True d cs surrogate_escaped [of c] by (auto split: sum.splits)
  next
    case False
    with "2.prems" have low: "\<not> is_low_surrogate c" and "well_formed cs" by auto
    with "2.IH"(2) [OF False] obtain r where "encodeURIComponent cs = Inr r" by blast
    with False low show ?thesis by (auto split: sum.splits)
  qed
qed

lemma white_space_not_surrogate:
  "is_white_space c \<Longrightarrow> \<not> is_high_surrogate c \<and> \<not> is_low_surrogate c"
  by (auto simp: is_white_space_def is_high_surrogate_def is_low_surrogate_def word_le_nat_alt)

lemma well_formed_dropWhile: "well_formed s \<Longrightarrow> well_formed (dropWhile is_white_space s)"
  by (induction s) (auto dest: white_space_not_surrogate)

lemma well_formed_butlast:
  "well_formed (a @ [c]) \<Longrightarrow> \<not> is_low_surrogate c \<Longrightarrow> well_formed a"
proof (induction a rule: well_formed.induct)
  case 1
  then show ?case by simp
next
  case (2 x xs)
  show ?case
  proof (cases "is_high_surrogate x")
    case True
    show ?thesis
    proof (cases xs)
      case Nil
      with True "2.prems" show ?thesis by simp
    next
      case (Cons d ds)
      with True "2.prems" "2.IH"(1) [OF True Cons] show ?thesis by simp
    qed
  next
    case False
    with "2.prems" "2.IH"(2) [OF False] show ?thesis by simp
  qed
qed

lemma well_formed_drop_trailing:
  "well_formed t \<Longrightarrow> well_formed (rev (dropWhile is_white_space (rev t)))"
proof (induction t rule: rev_induct)
  case Nil
  then show ?case by simp
next
  case (snoc x xs)
  show ?case
  proof (cases "is_white_space x")
    case True
    with snoc.prems have "well_formed xs"
      using well_formed_butlast white_space_not_surrogate by blast
    with True snoc.IH show ?thesis by simp
  next
    case False
    with snoc.prems show ?thesis by simp
  qed
qed

lemma well_formed_trim: "well_formed s \<Longrightarrow> well_formed (trim s)"
  by (simp add: trim_def well_formed_dropWhile well_formed_drop_trailing)

lemma split_lines_not_empty: "split_lines s \<noteq> []"
  by (induction s rule: split_lines.induct) (auto split: list.splits)

lemma line_feed_not_surrogate:
  "is_high_surrogate c \<or> is_low_surrogate c \<Longrightarrow> c \<noteq> 0x0A \<and> c \<noteq> 0x0D"
  by (auto simp: is_high_surrogate_def is_low_surrogate_def)

lemma well_formed_split_lines:
  "well_formed s \<Longrightarrow> l \<in> set (split_lines s) \<Longrightarrow> well_formed l"
proof (induction s arbitrary: l rule: well_formed.induct)
  case 1
  then show ?case by simp
next
  case (2 c cs)
  show ?case
  proof (cases "is_high_surrogate c")
    case True
    with "2.prems"(1) obtain d ds where cs: "cs = d # ds" and d: "is_low_surrogate d"
      and ds: "well_formed ds"
      by (auto split: list.splits)
    obtain l' ls' where sp: "split_lines ds = l' # ls'"
      using split_lines_not_empty [of ds] by (cases "split_lines ds") auto
    have "split_lines (c # cs) = (c # d # l') # ls'"
      using line_feed_not_surrogate [of c] line_feed_not_surrogate [of d] True d
      by (simp add: cs sp)
    with "2.prems"(2) have "l = c # d # l' \<or> l \<in> set ls'" by auto
    with "2.IH"(1) [OF True cs ds] sp True d show ?thesis by auto
  next
    case False
    with "2.prems"(1) have low: "\<not> is_low_surrogate c" and wf: "well_formed cs" by auto
    obtain l' ls' where sp: "split_lines cs = l' # ls'"
      using split_lines_not_empty [of cs] by (cases "split_lines cs") auto
    consider (lf) "c = 0x0A" | (crlf) "c \<noteq> 0x0A" "c = 0x0D" "startsWith cs [0x0A]"
      | (other) "c \<noteq> 0x0A" "\<not> (c = 0x0D \<and> startsWith cs [0x0A])"
      by blast
    then show ?thesis
    proof cases
      case lf
      with "2.prems"(2) "2.IH"(2) [OF False wf] show ?thesis by auto
    next
      case crlf
      then obtain rest where rest: "cs = 0x0A # rest" by (cases cs) auto
      then have "split_lines cs = [] # split_lines rest" by simp
      with crlf rest "2.prems"(2) "2.IH"(2) [OF False wf] show ?thesis by auto
    next
      case other
      then have "split_lines (c # cs) = (c # l') # ls'" by (auto simp: sp)
      with "2.prems"(2) have "l = c # l' \<or> l \<in> set ls'" by auto
      with "2.IH"(2) [OF False wf] sp False low show ?thesis by auto
    qed
  qed
qed

section \<open>Properties of the playlist parser\<close>

lemma extinf_not_blank: "is_extinf l \<Longrightarrow> \<not> is_blank l"
  by (auto simp: is_extinf_def is_blank_def js_def)

lemma extinf_starts_hash: "is_extinf l \<Longrightarrow> startsWith (trim l) (js ''#'')"
  by (cases "trim l") (auto simp: is_extinf_def js_def)

lemma next_url_skip: "is_blank l \<or> is_comment l \<Longrightarrow> next_url (l # ls) = next_url ls"
  by (simp add: next_url_def)

lemma next_url_extinf: "is_extinf l \<Longrightarrow> next_url (l # ls) = None"
  using extinf_not_blank [of l] extinf_starts_hash [of l]
  by (simp add: next_url_def is_comment_def is_url_line_def)

lemma next_url_here: "is_url_line l \<Longrightarrow> next_url (l # ls) = Some l"
  by (simp add: next_url_def is_url_line_def is_blank_def is_comment_def)

lemma pending_skip: "is_blank l \<or> is_comment l \<Longrightarrow> pending current (l # ls) = pending current ls"
  by (simp add: pending_def next_url_skip cong: option.case_cong)

lemma pending_extinf: "is_extinf l \<Longrightarrow> pending current (l # ls) = []"
  by (simp add: pending_def next_url_extinf split: option.splits)

lemma pending_url:
  "is_url_line l \<Longrightarrow>
   pending current (l # ls) = (case current of None \<Rightarrow> [] | Some cur \<Rightarrow> [(cur, trim l)])"
  by (simp add: pending_def next_url_here cong: option.case_cong)

lemma pairs_extinf:
  "is_extinf l \<Longrightarrow>
   map (\<lambda>(e, u). (open_channel (trim e), trim u)) (extinf_url_pairs (l # ls)) =
     pending (Some (open_channel (trim l))) ls @
     map (\<lambda>(e, u). (open_channel (trim e), trim u)) (extinf_url_pairs ls)"
  by (simp add: pending_def split: option.splits)

lemma step_skip:
  "is_blank l \<or> is_comment l \<Longrightarrow> parse_lines (l # ls) current acc = parse_lines ls current acc"
  by (auto simp: Let_def is_blank_def is_comment_def is_extinf_def)

lemma step_extinf:
  "is_extinf l \<Longrightarrow>
   parse_lines (l # ls) current acc = parse_lines ls (Some (open_channel (trim l))) acc"
  using extinf_not_blank [of l] by (simp add: is_blank_def is_extinf_def)

lemma step_url:
  assumes "is_url_line l"
  shows "parse_lines (l # ls) current acc =
     (case current of
        None \<Rightarrow> parse_lines ls None acc
      | Some cur \<Rightarrow>
          (case close_channel cur (trim l) of
             Inl e \<Rightarrow> Inl e
           | Inr ch \<Rightarrow> parse_lines ls None (acc @ [ch])))"
proof -
  from assms have "trim l \<noteq> []" "\<not> startsWith (trim l) (js ''#'')" "\<not> is_extinf l"
    using extinf_starts_hash [of l] by (auto simp: is_url_line_def)
  then show ?thesis by (simp add: is_extinf_def split: option.splits)
qed

lemma parse_lines_pairs:
  "parse_lines ls current acc =
     (case map_result (\<lambda>(c, u). close_channel c u)
             (pending current ls @
              map (\<lambda>(e, u). (open_channel (trim e), trim u)) (extinf_url_pairs ls)) of
        Inl e \<Rightarrow> Inl e
      | Inr cs \<Rightarrow> Inr (acc @ cs))"
proof (induction ls arbitrary: current acc)
  case Nil
  then show ?case by (simp add: pending_def next_url_def split: option.splits)
next
  case (Cons l ls)
  consider (skip) "is_blank l \<or> is_comment l" | (extinf) "is_extinf l" | (url) "is_url_line l"
    by (auto simp: is_blank_def is_comment_def is_url_line_def)
  then show ?case
  proof cases
    case skip
    then have "\<not> is_extinf l" using extinf_not_blank by (auto simp: is_comment_def)
    then have "extinf_url_pairs (l # ls) = extinf_url_pairs ls" by simp
    then show ?thesis
      unfolding step_skip [OF skip] pending_skip [OF skip] by (simp only: Cons.IH)
  next
    case extinf
    show ?thesis
      unfolding step_extinf [OF extinf] pending_extinf [OF extinf] pairs_extinf [OF extinf]
      by (simp only: Cons.IH append_Nil)
  next
    case url
    then have "\<not> is_extinf l" using extinf_starts_hash [of l] by (auto simp: is_url_line_def)
    then have pairs: "extinf_url_pairs (l # ls) = extinf_url_pairs ls" by simp
    have none: "pending None ls = []" by (simp add: pending_def)
    show ?thesis
    proof (cases current)
      case None
      show ?thesis
        unfolding step_url [OF url] pending_url [OF url] pairs None
        by (simp add: Cons.IH none)
    next
      case (Some cur)
      show ?thesis
        unfolding step_url [OF url] pending_url [OF url] pairs Some
        by (simp add: Cons.IH none split: sum.splits)
    qed
  qed
qed

lemma parseM3U_pairs:
  "parseM3U content = map_result channel_of (extinf_url_pairs (split_lines content))"
proof -
  have "map_result (\<lambda>(c, u). close_channel c u) (map (\<lambda>(e, u). (open_channel (trim e), trim u)) ps)
      = map_result channel_of ps" for ps
    by (induction ps) (auto simp: channel_of_def split: sum.splits)
  then show ?thesis
    by (simp add: parseM3U_def parse_lines_pairs pending_def split: sum.splits)
qed

lemma next_url_member: "next_url ls = Some u \<Longrightarrow> u \<in> set ls"
proof -
  assume "next_url ls = Some u"
  then obtain rest where "dropWhile (\<lambda>l. is_blank l \<or> is_comment l) ls = u # rest"
    by (auto simp: next_url_def split: list.splits if_splits)
  then show ?thesis by (metis list.set_intros(1) set_dropWhileD)
qed

lemma extinf_url_pairs_member:
  "(e, u) \<in> set (extinf_url_pairs ls) \<Longrightarrow> e \<in> set ls \<and> u \<in> set ls"
  by (induction ls) (auto split: if_splits option.splits dest: next_url_member)

lemma parseM3U_total:
  assumes "well_formed content"
  shows "\<exists>channels. parseM3U content = Inr channels"
proof -
  have "\<exists>c. channel_of p = Inr c" if "p \<in> set (extinf_url_pairs (split_lines content))" for p
  proof -
    from that have "snd p \<in> set (split_lines content)"
      using extinf_url_pairs_member [of "fst p" "snd p"] by simp
    with assms have "well_formed (trim (snd p))"
      by (simp add: well_formed_split_lines well_formed_trim)
    then obtain enc where "encodeURIComponent (trim (snd p)) = Inr enc"
      using encode_well_formed by blast
    then show ?thesis by (simp add: channel_of_def close_channel_def)
  qed
  then show ?thesis
    unfolding parseM3U_pairs by (intro map_result_total) blast
qed

lemma assign_all_lookup:
  "assign_all kvs m k = (case map_of (rev kvs) k of Some v \<Rightarrow> Some v | None \<Rightarrow> m k)"
proof -
  have "foldl (\<lambda>m (k, v). m(k \<mapsto> v)) m kvs = m ++ map_of (rev kvs)"
    by (induction kvs arbitrary: m) (auto simp: map_add_def fun_eq_iff split: option.splits)
  then show ?thesis by (simp add: assign_all_def map_add_def)
qed

lemma split_char_first:
  "split_char sep s =
     takeWhile (\<lambda>c. c \<noteq> sep) s #
     (case dropWhile (\<lambda>c. c \<noteq> sep) s of [] \<Rightarrow> [] | x # rest \<Rightarrow> split_char sep rest)"
  by (induction s) (auto split: list.splits)

lemma split_char_no_sep: "sep \<notin> set s \<Longrightarrow> split_char sep s = [s]"
  by (induction s) auto

lemma extinf_title_one_comma:
  assumes "count_list line 0x2C \<le> 1"
  shows "(case extinf_title line of None \<Rightarrow> js ''Unknown'' | Some t \<Rightarrow> if t = [] then js ''Unknown'' else t)
     = (if after_first_comma line = [] then js ''Unknown'' else after_first_comma line)"
proof (cases "dropWhile (\<lambda>c. c \<noteq> 0x2C) line")
  case Nil
  have "split_char 0x2C line = [takeWhile (\<lambda>c. c \<noteq> 0x2C) line]"
    by (subst split_char_first) (simp only: Nil list.case)
  then show ?thesis by (simp add: extinf_title_def after_first_comma_def Nil)
next
  case (Cons x rest)
  then have x: "x = 0x2C" using hd_dropWhile [of "\<lambda>c. c \<noteq> 0x2C" line] by auto
  have "line = takeWhile (\<lambda>c. c \<noteq> 0x2C) line @ x # rest"
    using Cons takeWhile_dropWhile_id [of "\<lambda>c. c \<noteq> 0x2C" line] by simp
  then have "count_list line 0x2C = count_list (takeWhile (\<lambda>c. c \<noteq> 0x2C) line) 0x2C + 1 + count_list rest 0x2C"
    using x by (metis (no_types, lifting) add.assoc count_list.simps(2) count_list_append add.commute)
  with assms have "count_list rest 0x2C = 0" by simp
  then have "0x2C \<notin> set rest" by (simp add: count_list_0_iff)
  then have "split_char 0x2C rest = [rest]" by (rule split_char_no_sep)
  then have "split_char 0x2C line = [takeWhile (\<lambda>c. c \<noteq> 0x2C) line, rest]"
    by (subst split_char_first) (simp only: Cons list.case)
  then show ?thesis by (simp add: extinf_title_def after_first_comma_def Cons)
qed

lemma open_channel_name:
  "open_channel line (js ''name'') =
     (case name_attribute line of
        Some v \<Rightarrow> Some v
      | None \<Rightarrow>
          Some (trim (case extinf_title line of
                        None \<Rightarrow> js ''Unknown''
                      | Some t \<Rightarrow> if t = [] then js ''Unknown'' else t)))"
  by (simp add: open_channel_def assign_all_lookup name_attribute_def split: option.splits)

lemma key_distinct:
  "js ''name'' \<noteq> js ''url''" "js ''name'' \<noteq> js ''streamUrl''" "js ''url'' \<noteq> js ''streamUrl''"
  by (simp_all add: js_def)

lemma channel_of_fields:
  assumes "channel_of p = Inr c"
  shows "c (js ''name'') = open_channel (trim (fst p)) (js ''name'')"
    and "c (js ''url'') = Some (trim (snd p))"
    and "\<exists>enc. encodeURIComponent (trim (snd p)) = Inr enc \<and>
           c (js ''streamUrl'') = Some (js ''/api/stream?url='' @ enc)"
  using assms key_distinct
  by (auto simp: channel_of_def close_channel_def split: sum.splits)

lemma parseM3U_channels:
  assumes "parseM3U content = Inr channels"
  shows "list_all2 (\<lambda>p c. channel_of p = Inr c) (extinf_url_pairs (split_lines content)) channels"
  using assms unfolding parseM3U_pairs by (rule map_result_Inr)

lemma extinf_url_pairs_skip:
  "\<forall>l \<in> set skip. \<not> is_extinf l \<Longrightarrow> extinf_url_pairs (skip @ ls) = extinf_url_pairs ls"
  by (induction skip) auto

lemma next_url_split:
  assumes "next_url ls = Some u"
  obtains skip rest where "ls = skip @ u # rest" and "\<forall>l \<in> set skip. \<not> is_extinf l"
    and "\<not> is_extinf u"
proof -
  let ?P = "\<lambda>l. is_blank l \<or> is_comment l"
  from assms obtain rest where d: "dropWhile ?P ls = u # rest" and u: "is_url_line u"
    by (auto simp: next_url_def split: list.splits if_splits)
  have "ls = takeWhile ?P ls @ u # rest" using d takeWhile_dropWhile_id [of ?P ls] by simp
  moreover have "\<forall>l \<in> set (takeWhile ?P ls). \<not> is_extinf l"
    using extinf_not_blank by (auto dest!: set_takeWhileD simp: is_comment_def)
  moreover have "\<not> is_extinf u" using u extinf_starts_hash [of u] by (auto simp: is_url_line_def)
  ultimately show ?thesis using that by blast
qed

lemma url_lines_in_order: "subseq (map snd (extinf_url_pairs ls)) ls"
proof (induction ls rule: length_induct)
  case (1 ls)
  show ?case
  proof (cases ls)
    case Nil
    then show ?thesis by simp
  next
    case (Cons l rest)
    have rest: "subseq (map snd (extinf_url_pairs rest)) rest" using 1 Cons by simp
    show ?thesis
    proof (cases "is_extinf l \<and> next_url rest \<noteq> None")
      case False
      then have "extinf_url_pairs (l # rest) = extinf_url_pairs rest" by auto
      moreover from rest have "subseq (map snd (extinf_url_pairs rest)) (l # rest)"
        by (rule list_emb_Cons)
      ultimately show ?thesis by (simp only: Cons)
    next
      case True
      then obtain u where u: "next_url rest = Some u" by auto
      then obtain skip rest' where sp: "rest = skip @ u # rest'"
        and skip: "\<forall>l \<in> set skip. \<not> is_extinf l" and nu: "\<not> is_extinf u"
        by (rule next_url_split)
      have "extinf_url_pairs rest = extinf_url_pairs rest'"
        unfolding sp using extinf_url_pairs_skip [OF skip] nu by simp
      moreover have "subseq (map snd (extinf_url_pairs rest')) rest'"
        using 1 Cons sp by simp
      ultimately have "subseq (u # map snd (extinf_url_pairs rest)) (u # rest')" by simp
      then have "subseq (u # map snd (extinf_url_pairs rest)) (skip @ u # rest')"
        by (rule list_emb_append2)
      then have "subseq (u # map snd (extinf_url_pairs rest)) rest"
        using sp by simp
      then have "subseq (u # map snd (extinf_url_pairs rest)) (l # rest)"
        by (rule list_emb_Cons)
      with True u show ?thesis by (simp add: Cons)
    qed
  qed
qed

lemma channel_of_described:
  assumes "channel_of p = Inr c"
  shows "\<exists>enc. encodeURIComponent (trim (snd p)) = Inr enc \<and>
           c = described_channel (trim (fst p)) (trim (snd p)) enc"
proof -
  from assms obtain enc where enc: "encodeURIComponent (trim (snd p)) = Inr enc"
    and c: "c = (open_channel (trim (fst p)))
                  (js ''url'' \<mapsto> trim (snd p), js ''streamUrl'' \<mapsto> js ''/api/stream?url='' @ enc)"
    by (auto simp: channel_of_def close_channel_def split: sum.splits)
  have "c k = described_channel (trim (fst p)) (trim (snd p)) enc k" for k
    unfolding c described_channel_def open_channel_def Let_def
    by (simp add: assign_all_lookup split: option.splits)
  then have "c = described_channel (trim (fst p)) (trim (snd p)) enc" by (rule ext)
  with enc show ?thesis by blast
qed

lemma extinf_url_pairs_adjacent:
  "p \<in> set (extinf_url_pairs ls) \<Longrightarrow>
   is_extinf (fst p) \<and> is_url_line (snd p) \<and>
   (\<exists>pre skip post. ls = pre @ fst p # skip @ snd p # post \<and>
      list_all (\<lambda>l. is_blank l \<or> is_comment l) skip)"
proof (induction ls)
  case Nil
  then show ?case by simp
next
  case (Cons l ls)
  show ?case
  proof (cases "is_extinf l \<and> next_url ls = Some (snd p) \<and> fst p = l")
    case True
    let ?P = "\<lambda>l. is_blank l \<or> is_comment l"
    from True obtain rest where d: "dropWhile ?P ls = snd p # rest" and u: "is_url_line (snd p)"
      by (auto simp: next_url_def split: list.splits if_splits)
    have "ls = takeWhile ?P ls @ snd p # rest"
      using d takeWhile_dropWhile_id [of ?P ls] by simp
    then have "l # ls = [] @ fst p # takeWhile ?P ls @ snd p # rest" using True by simp
    moreover have "list_all ?P (takeWhile ?P ls)"
      by (auto simp: list_all_iff dest: set_takeWhileD)
    ultimately show ?thesis using True u by blast
  next
    case False
    with Cons.prems have "p \<in> set (extinf_url_pairs ls)"
      by (cases p) (auto split: if_splits option.splits)
    from Cons.IH [OF this] obtain pre skip post where
      "is_extinf (fst p)" "is_url_line (snd p)" "ls = pre @ fst p # skip @ snd p # post"
      "list_all (\<lambda>l. is_blank l \<or> is_comment l) skip"
      by blast
    then have "l # ls = (l # pre) @ fst p # skip @ snd p # post" by simp
    with \<open>is_extinf (fst p)\<close> \<open>is_url_line (snd p)\<close>
      \<open>list_all (\<lambda>l. is_blank l \<or> is_comment l) skip\<close>
    show ?thesis by blast
  qed
qed

text \<open>
  C2. Whenever \<^verbatim>\<open>parseM3U\<close> returns, the number of channels is the number of \<^verbatim>\<open>#EXTINF\<close>
  lines that are followed, skipping blank and comment lines, by a URL line, and the
  channels are, one for one and in the order in which the lines stand in the text,
  those described by such an \<^verbatim>\<open>#EXTINF\<close> line and its URL line: between the two there are
  only blank and comment lines, so that of several \<^verbatim>\<open>#EXTINF\<close> lines before one URL line
  it is the last that gives the channel its name and attributes, and an \<^verbatim>\<open>#EXTINF\<close> line
  at the end gives no channel. It returns for every text without unpaired surrogates;
  on other texts \<^verbatim>\<open>encodeURIComponent\<close> may throw.
\<close>

theorem parseM3U_channel_count:
  "(well_formed content \<longrightarrow> (\<exists>channels. parseM3U content = Inr channels)) \<and>
   (parseM3U content = Inr channels \<longrightarrow>
      length channels = length (extinf_url_pairs (split_lines content)) \<and>
      map (\<lambda>c. c (js ''url'')) channels =
        map (\<lambda>p. Some (trim (snd p))) (extinf_url_pairs (split_lines content)) \<and>
      subseq (map snd (extinf_url_pairs (split_lines content))) (split_lines content) \<and>
      list_all2
        (\<lambda>p c. \<exists>enc. encodeURIComponent (trim (snd p)) = Inr enc \<and>
                 c = described_channel (trim (fst p)) (trim (snd p)) enc)
        (extinf_url_pairs (split_lines content)) channels \<and>
      (\<forall>p \<in> set (extinf_url_pairs (split_lines content)).
         is_extinf (fst p) \<and> is_url_line (snd p) \<and>
         (\<exists>pre skip post.
            split_lines content = pre @ fst p # skip @ snd p # post \<and>
            list_all (\<lambda>l. is_blank l \<or> is_comment l) skip)))"
proof (intro conjI impI ballI)
  show "subseq (map snd (extinf_url_pairs (split_lines content))) (split_lines content)"
    by (rule url_lines_in_order)
next
  assume "well_formed content"
  then show "\<exists>channels. parseM3U content = Inr channels" by (rule parseM3U_total)
next
  assume "parseM3U content = Inr channels"
  then have *: "list_all2 (\<lambda>p c. channel_of p = Inr c) (extinf_url_pairs (split_lines content)) channels"
    by (rule parseM3U_channels)
  then show "length channels = length (extinf_url_pairs (split_lines content))"
    by (simp add: list_all2_lengthD)
  from * show "map (\<lambda>c. c (js ''url'')) channels =
        map (\<lambda>p. Some (trim (snd p))) (extinf_url_pairs (split_lines content))"
    by (induction rule: list_all2_induct) (simp_all add: channel_of_fields(2))
  from * show "list_all2
        (\<lambda>p c. \<exists>enc. encodeURIComponent (trim (snd p)) = Inr enc \<and>
                 c = described_channel (trim (fst p)) (trim (snd p)) enc)
        (extinf_url_pairs (split_lines content)) channels"
    by (rule list_all2_mono) (rule channel_of_described)
next
  fix p assume "p \<in> set (extinf_url_pairs (split_lines content))"
  from extinf_url_pairs_adjacent [OF this]
  show "is_extinf (fst p)" "is_url_line (snd p)"
    "\<exists>pre skip post.
            split_lines content = pre @ fst p # skip @ snd p # post \<and>
            list_all (\<lambda>l. is_blank l \<or> is_comment l) skip"
    by blast+
qed

lemma example_extinf_attributes: "attribute_matches (trim (js ''#EXTINF:-1,B'')) = []"
  by code_simp

lemma example_extinf_title: "extinf_title (trim (js ''#EXTINF:-1,B'')) = Some (js ''B'')"
  by code_simp

lemma trim_example_title: "trim (js ''B'') = js ''B''"
  by code_simp

lemma playlist_example_well_formed: "well_formed playlist_example"
  by code_simp

lemma playlist_example_pairs:
  "extinf_url_pairs (split_lines playlist_example) =
     [(js ''#EXTINF:-1,B'', js ''  http://x/b.ts  '')]"
  by code_simp

lemma trim_example_url: "trim (js ''  http://x/b.ts  '') = js ''http://x/b.ts''"
  by code_simp

theorem parseM3U_channel_count_witness:
  "well_formed playlist_example \<and>
   (\<exists>channels. parseM3U playlist_example = Inr channels \<and> length channels = 1 \<and>
      map (\<lambda>c. c (js ''url'')) channels = [Some (js ''http://x/b.ts'')] \<and>
      map (\<lambda>c. c (js ''name'')) channels = [Some (js ''B'')])"
proof -
  from parseM3U_channel_count [of playlist_example] playlist_example_well_formed
  obtain channels where c: "parseM3U playlist_example = Inr channels" by blast
  have name: "described_channel (trim (js ''#EXTINF:-1,B'')) u enc (js ''name'') = Some (js ''B'')"
    for u enc
  proof -
    have "js ''B'' \<noteq> []" by (simp add: js_def)
    then show ?thesis
      using key_distinct
      by (simp add: described_channel_def example_extinf_attributes example_extinf_title
          trim_example_title)
  qed
  from c parseM3U_channel_count [of playlist_example channels] playlist_example_well_formed
  show ?thesis
    by (auto simp: playlist_example_pairs trim_example_url list_all2_Cons1 name)
qed

lemma stream_url_parameter_encoded:
  assumes "encodeURIComponent u = Inr enc"
  shows "stream_url_parameter (js ''/api/stream?url='' @ enc) = Some u"
proof -
  have chars: "list_all escaped_char enc" using assms by (rule encode_chars)
  have "\<forall>c \<in> set enc. c \<noteq> 0x26 \<and> c \<noteq> 0x23 \<and> c \<noteq> 0x2B"
    using chars by (auto simp: list_all_iff escaped_char_def uri_unescaped_def is_alnum_def)
  then have tw: "takeWhile (\<lambda>c. c \<noteq> 0x26 \<and> c \<noteq> 0x23) enc = enc"
    and pts: "plus_to_space enc = enc"
    by (auto simp: plus_to_space_def map_idI)
  have sw: "startsWith (js ''/api/stream?url='' @ enc) (js ''/api/stream?url'' @ js ''='')"
    using startsWith_append [of "js ''/api/stream?url=''" enc] by (simp add: js_def)
  have dr: "drop 16 (js ''/api/stream?url='' @ enc) = enc" by (simp add: js_def)
  have "stream_url_parameter (js ''/api/stream?url='' @ enc) =
      (case decodeURIComponent enc of Inl e \<Rightarrow> Some enc | Inr v \<Rightarrow> Some v)"
    unfolding stream_url_parameter_def Let_def dr tw pts using sw by (simp add: js_def)
  then show ?thesis using decode_encode [OF assms] by simp
qed

text \<open>
  C5. For every channel that \<^verbatim>\<open>parseM3U\<close> produces, \<^verbatim>\<open>streamUrl\<close> is \<^verbatim>\<open>/api/stream?url=\<close>
  followed by the percent-encoding of \<^verbatim>\<open>url\<close>, and decoding the value of the \<^verbatim>\<open>url\<close> query
  parameter of \<^verbatim>\<open>streamUrl\<close> gives back exactly \<^verbatim>\<open>url\<close>.
\<close>

theorem streamUrl_round_trip:
  assumes "parseM3U content = Inr channels" and "c \<in> set channels"
  shows "\<exists>u enc. c (js ''url'') = Some u \<and> encodeURIComponent u = Inr enc \<and>
           c (js ''streamUrl'') = Some (js ''/api/stream?url='' @ enc) \<and>
           decodeURIComponent enc = Inr u \<and>
           stream_url_parameter (js ''/api/stream?url='' @ enc) = Some u"
proof -
  from assms(1) have "list_all2 (\<lambda>p c. channel_of p = Inr c) (extinf_url_pairs (split_lines content)) channels"
    by (rule parseM3U_channels)
  moreover from assms(2) obtain i where "i < length channels" "c = channels ! i"
    by (auto simp: in_set_conv_nth)
  ultimately have "channel_of (extinf_url_pairs (split_lines content) ! i) = Inr c"
    by (simp add: list_all2_conv_all_nth)
  then obtain p where p: "channel_of p = Inr c" ..
  from channel_of_fields(3) [OF p] obtain enc
    where enc: "encodeURIComponent (trim (snd p)) = Inr enc"
      "c (js ''streamUrl'') = Some (js ''/api/stream?url='' @ enc)"
    by blast
  with channel_of_fields(2) [OF p] decode_encode [OF enc(1)] stream_url_parameter_encoded [OF enc(1)]
  show ?thesis by blast
qed

lemma playlist_scenario_well_formed: "well_formed playlist_scenario"
  by code_simp

lemma playlist_scenario_pairs:
  \<open>extinf_url_pairs (split_lines playlist_scenario) =
     [(js ''#EXTINF:-1 tvg-logo="http://x/logo.png",Channel One'', js ''http://x/stream1.ts'')]\<close>
  by code_simp

lemma trim_scenario_url: "trim (js ''http://x/stream1.ts'') = js ''http://x/stream1.ts''"
  by code_simp

lemma encode_scenario_url:
  "encodeURIComponent (js ''http://x/stream1.ts'') = Inr (js ''http%3A%2F%2Fx%2Fstream1.ts'')"
  by code_simp

theorem streamUrl_round_trip_witness:
  "\<exists>channels c. parseM3U playlist_scenario = Inr channels \<and> c \<in> set channels \<and>
     c (js ''url'') = Some (js ''http://x/stream1.ts'') \<and>
     c (js ''streamUrl'') = Some (js ''/api/stream?url=http%3A%2F%2Fx%2Fstream1.ts'') \<and>
     decodeURIComponent (js ''http%3A%2F%2Fx%2Fstream1.ts'') = Inr (js ''http://x/stream1.ts'') \<and>
     stream_url_parameter (js ''/api/stream?url=http%3A%2F%2Fx%2Fstream1.ts'') =
       Some (js ''http://x/stream1.ts'')"
proof -
  obtain channels where p: "parseM3U playlist_scenario = Inr channels"
    using parseM3U_total [OF playlist_scenario_well_formed] by blast
  from parseM3U_channels [OF p] obtain c where c: "channels = [c]"
    and ch: \<open>channel_of (js ''#EXTINF:-1 tvg-logo="http://x/logo.png",Channel One'',
                         js ''http://x/stream1.ts'') = Inr c\<close>
    unfolding playlist_scenario_pairs by (auto simp: list_all2_Cons1)
  then have mem: "c \<in> set channels" by simp
  from channel_of_fields(2) [OF ch] have url: "c (js ''url'') = Some (js ''http://x/stream1.ts'')"
    by (simp add: trim_scenario_url)
  have cat: "js ''/api/stream?url='' @ js ''http%3A%2F%2Fx%2Fstream1.ts'' =
      js ''/api/stream?url=http%3A%2F%2Fx%2Fstream1.ts''"
    by (simp add: js_def)
  from streamUrl_round_trip [OF p mem] url encode_scenario_url p mem show ?thesis
    unfolding cat [symmetric] by auto
qed

text \<open>
  C8, as the code has it. For a channel whose \<^verbatim>\<open>#EXTINF\<close> line has at most one comma and
  no attribute with the key \<^verbatim>\<open>name\<close>, the name is the text following the first comma,
  trimmed, and \<^verbatim>\<open>Unknown\<close> when no text follows the first comma or there is no comma.
\<close>

theorem channel_name_from_title:
  assumes "parseM3U content = Inr channels" and "i < length channels"
    and "line = trim (fst (extinf_url_pairs (split_lines content) ! i))"
    and "count_list line 0x2C \<le> 1" and "name_attribute line = None"
  shows "(channels ! i) (js ''name'') =
     Some (trim (if after_first_comma line = [] then js ''Unknown'' else after_first_comma line))"
proof -
  from assms(1) have *: "list_all2 (\<lambda>p c. channel_of p = Inr c) (extinf_url_pairs (split_lines content)) channels"
    by (rule parseM3U_channels)
  with assms(2) have "channel_of (extinf_url_pairs (split_lines content) ! i) = Inr (channels ! i)"
    by (simp add: list_all2_conv_all_nth)
  then have "(channels ! i) (js ''name'') = open_channel line (js ''name'')"
    using channel_of_fields(1) assms(3) by simp
  then show ?thesis
    using assms(5) extinf_title_one_comma [OF assms(4)] by (simp add: open_channel_name)
qed

lemma trim_scenario_extinf:
  \<open>trim (js ''#EXTINF:-1 tvg-logo="http://x/logo.png",Channel One'') =
     js ''#EXTINF:-1 tvg-logo="http://x/logo.png",Channel One''\<close>
  by code_simp

lemma scenario_extinf_commas:
  \<open>count_list (js ''#EXTINF:-1 tvg-logo="http://x/logo.png",Channel One'') 0x2C \<le> 1\<close>
  by code_simp

lemma scenario_extinf_no_name:
  \<open>name_attribute (js ''#EXTINF:-1 tvg-logo="http://x/logo.png",Channel One'') = None\<close>
  by code_simp

lemma scenario_extinf_title:
  \<open>trim (if after_first_comma (js ''#EXTINF:-1 tvg-logo="http://x/logo.png",Channel One'') = []
         then js ''Unknown''
         else after_first_comma (js ''#EXTINF:-1 tvg-logo="http://x/logo.png",Channel One''))
     = js ''Channel One''\<close>
  by code_simp

theorem channel_name_from_title_witness:
  "\<exists>channels. parseM3U playlist_scenario = Inr channels \<and> 0 < length channels \<and>
     (channels ! 0) (js ''name'') = Some (js ''Channel One'')"
proof -
  obtain channels where p: "parseM3U playlist_scenario = Inr channels"
    using parseM3U_total [OF playlist_scenario_well_formed] by blast
  from parseM3U_channels [OF p] have len: "0 < length channels"
    unfolding playlist_scenario_pairs by (auto simp: list_all2_Cons1)
  have line: \<open>js ''#EXTINF:-1 tvg-logo="http://x/logo.png",Channel One'' =
      trim (fst (extinf_url_pairs (split_lines playlist_scenario) ! 0))\<close>
    by (simp add: playlist_scenario_pairs trim_scenario_extinf)
  from channel_name_from_title [OF p len line scenario_extinf_commas scenario_extinf_no_name]
    p len
  show ?thesis by (auto simp: scenario_extinf_title)
qed

text \<open>
  As the specification words it, the property fails on an \<^verbatim>\<open>#EXTINF\<close> line with a \<^verbatim>\<open>name\<close>
  attribute: the text following the first comma is \<^verbatim>\<open>Title\<close>, and the name of the channel
  is \<^verbatim>\<open>X\<close>.
\<close>

theorem channel_name_attribute_counterexample:
  \<open>channel_names (parseM3U playlist_named) = [Some (js ''X'')] \<and>
   trim (after_first_comma (trim (js ''#EXTINF:-1 name="X",Title''))) = js ''Title''\<close>
  by code_simp

text \<open>
  A title with a comma in it is cut at that comma: \<^verbatim>\<open>split(",", 2)\<close> keeps the first two
  pieces of the line and drops the rest.
\<close>

lemma comma_truncation_example:
  "channel_names (parseM3U (js ''#EXTINF:-1,News, Sports'' @ [0x0A] @ js ''http://x/a.ts'')) =
     [Some (js ''News'')]"
  by code_simp

text \<open>
  C9. When the \<^verbatim>\<open>#EXTINF\<close> line of a channel holds a quoted attribute whose key is
  \<^verbatim>\<open>name\<close>, the name of the channel is the value of that attribute (of the last one,
  when there are several), whatever follows the comma: the attributes are spread into
  the record after \<^verbatim>\<open>name\<close> is set.
\<close>

theorem channel_name_from_attribute:
  assumes "parseM3U content = Inr channels" and "i < length channels"
    and "line = trim (fst (extinf_url_pairs (split_lines content) ! i))"
    and "name_attribute line = Some v"
  shows "(channels ! i) (js ''name'') = Some v"
proof -
  from assms(1) have *: "list_all2 (\<lambda>p c. channel_of p = Inr c) (extinf_url_pairs (split_lines content)) channels"
    by (rule parseM3U_channels)
  with assms(2) have "channel_of (extinf_url_pairs (split_lines content) ! i) = Inr (channels ! i)"
    by (simp add: list_all2_conv_all_nth)
  then have "(channels ! i) (js ''name'') = open_channel line (js ''name'')"
    using channel_of_fields(1) assms(3) by simp
  then show ?thesis
    using assms(4) by (simp add: open_channel_name)
qed

lemma playlist_named_well_formed: "well_formed playlist_named"
  by code_simp

lemma playlist_named_pairs:
  \<open>extinf_url_pairs (split_lines playlist_named) =
     [(js ''#EXTINF:-1 name="X",Title'', js ''http://x/a.ts'')]\<close>
  by code_simp

lemma playlist_named_attribute:
  \<open>name_attribute (trim (js ''#EXTINF:-1 name="X",Title'')) = Some (js ''X'')\<close>
  by code_simp

theorem channel_name_from_attribute_witness:
  "\<exists>channels. parseM3U playlist_named = Inr channels \<and> 0 < length channels \<and>
     (channels ! 0) (js ''name'') = Some (js ''X'')"
proof -
  obtain channels where p: "parseM3U playlist_named = Inr channels"
    using parseM3U_total [OF playlist_named_well_formed] by blast
  from parseM3U_channels [OF p] have len: "0 < length channels"
    unfolding playlist_named_pairs by (auto simp: list_all2_Cons1)
  have "name_attribute (trim (fst (extinf_url_pairs (split_lines playlist_named) ! 0))) =
      Some (js ''X'')"
    by (simp add: playlist_named_pairs playlist_named_attribute)
  from channel_name_from_attribute [OF p len refl this] p len show ?thesis by auto
qed

section \<open>Properties of the manifest rewriter\<close>

lemma split_lines_single: "0x0A \<notin> set x \<Longrightarrow> split_lines x = [x]"
proof (induction x)
  case Nil
  then show ?case by simp
next
  case (Cons c x)
  then have "\<not> startsWith x [0x0A]" by (cases x) auto
  with Cons show ?case by simp
qed

lemma split_lines_prepend:
  "line_safe x \<Longrightarrow> split_lines (x @ 0x0A # rest) = x # split_lines rest"
proof (induction x)
  case Nil
  then show ?case by simp
next
  case (Cons c x)
  from Cons.prems have c: "c \<noteq> 0x0A" and x: "line_safe x"
    by (auto simp: line_safe_def split: if_splits)
  have "\<not> (c = 0x0D \<and> startsWith (x @ 0x0A # rest) [0x0A])"
  proof (cases x)
    case Nil
    with Cons.prems show ?thesis by (simp add: line_safe_def)
  next
    case (Cons d ds)
    with Cons.prems show ?thesis by (auto simp: line_safe_def)
  qed
  with c Cons.IH [OF x] show ?case by simp
qed

lemma split_lines_join:
  "ls \<noteq> [] \<Longrightarrow> \<forall>l \<in> set ls. line_safe l \<Longrightarrow> split_lines (join [0x0A] ls) = ls"
proof (induction ls)
  case Nil
  then show ?case by simp
next
  case (Cons x xs)
  show ?case
  proof (cases xs)
    case Nil
    with Cons.prems show ?thesis by (simp add: split_lines_single line_safe_def)
  next
    case (Cons y ys)
    with Cons.prems Cons.IH show ?thesis by (simp add: split_lines_prepend)
  qed
qed

lemma split_lines_no_line_feed: "l \<in> set (split_lines s) \<Longrightarrow> 0x0A \<notin> set l"
proof (induction s arbitrary: l rule: split_lines.induct)
  case 1
  then show ?case by simp
next
  case (2 c cs)
  obtain l' ls' where sp: "split_lines cs = l' # ls'"
    using split_lines_not_empty [of cs] by (cases "split_lines cs") auto
  consider (lf) "c = 0x0A" | (crlf) "c \<noteq> 0x0A" "c = 0x0D \<and> startsWith cs [0x0A]"
    | (other) "c \<noteq> 0x0A" "\<not> (c = 0x0D \<and> startsWith cs [0x0A])"
    by blast
  then show ?case
  proof cases
    case lf
    with "2.prems" "2.IH"(1) show ?thesis by auto
  next
    case crlf
    with "2.prems" "2.IH"(2) show ?thesis by auto
  next
    case other
    with "2.prems" sp have "l = c # l' \<or> l \<in> set ls'" by auto
    with other "2.IH"(3) [OF other] sp show ?thesis by auto
  qed
qed

lemma set_trim: "set (trim s) \<subseteq> set s"
proof -
  have "set (trim s) \<subseteq> set (dropWhile is_white_space s)"
    unfolding trim_def using set_dropWhileD by fastforce
  also have "\<dots> \<subseteq> set s" using set_dropWhileD by fastforce
  finally show ?thesis .
qed

lemma trim_last: "trim s \<noteq> [] \<Longrightarrow> \<not> is_white_space (last (trim s))"
proof -
  assume "trim s \<noteq> []"
  then have ne: "dropWhile is_white_space (rev (dropWhile is_white_space s)) \<noteq> []"
    by (simp add: trim_def)
  then have "\<not> is_white_space (hd (dropWhile is_white_space (rev (dropWhile is_white_space s))))"
    by (rule hd_dropWhile)
  with ne show ?thesis by (simp add: trim_def last_rev)
qed

lemma trimmed_line_safe: "l \<in> set (split_lines s) \<Longrightarrow> line_safe (trim l)"
  using split_lines_no_line_feed [of l s] set_trim [of l] trim_last [of l]
  by (auto simp: line_safe_def is_white_space_def)

lemma relay_url_safe:
  assumes "encodeURIComponent u = Inr enc"
  shows "line_safe (js ''/api/stream?url='' @ enc)"
proof -
  have "list_all escaped_char enc" using assms by (rule encode_chars)
  then have "\<forall>c \<in> set enc. c \<noteq> 0x0A \<and> c \<noteq> 0x0D"
    by (auto simp: list_all_iff escaped_char_def uri_unescaped_def is_alnum_def)
  moreover have "\<forall>c \<in> set (js ''/api/stream?url=''). c \<noteq> 0x0A \<and> c \<noteq> 0x0D"
    by (simp add: js_def)
  ultimately have "\<forall>c \<in> set (js ''/api/stream?url='' @ enc). c \<noteq> 0x0A \<and> c \<noteq> 0x0D"
    by auto
  moreover have "js ''/api/stream?url='' @ enc \<noteq> []" by (simp add: js_def)
  ultimately show ?thesis
    unfolding line_safe_def using last_in_set by blast
qed

lemma rewrite_line_result:
  "rewrite_line new_URL base line = Inr out_line \<longleftrightarrow> rewritten_as new_URL base line out_line"
  by (auto simp: rewrite_line_def rewritten_as_def passes_through_def Let_def
      split: option.splits sum.splits)

lemma rewrite_line_safe:
  assumes "rewrite_line new_URL base l = Inr out_line" and "l \<in> set (split_lines s)"
  shows "line_safe out_line"
proof (cases "passes_through (trim l)")
  case True
  with assms(1) have "out_line = trim l" by (simp add: rewrite_line_result rewritten_as_def)
  with assms(2) show ?thesis by (simp add: trimmed_line_safe)
next
  case False
  with assms(1) obtain absolute enc where "encodeURIComponent absolute = Inr enc"
    and "out_line = js ''/api/stream?url='' @ enc"
    by (auto simp: rewrite_line_result rewritten_as_def split: option.splits sum.splits)
  then show ?thesis by (simp add: relay_url_safe)
qed

lemma rewritten_lines:
  "(new_URL sourceUrl None = Some base \<and>
    rewriteManifestWithProxy new_URL manifest sourceUrl = Inr out \<longrightarrow>
      length (split_lines out) = length (split_lines manifest) \<and>
      list_all2 (rewritten_as new_URL base) (split_lines manifest) (split_lines out)) \<and>
   (new_URL sourceUrl None = Some base \<and>
    list_all (\<lambda>line. \<exists>out_line. rewritten_as new_URL base line out_line) (split_lines manifest) \<longrightarrow>
      (\<exists>out. rewriteManifestWithProxy new_URL manifest sourceUrl = Inr out))"
proof (intro conjI impI)
  assume a: "new_URL sourceUrl None = Some base \<and>
    rewriteManifestWithProxy new_URL manifest sourceUrl = Inr out"
  then obtain ls where ls: "map_result (rewrite_line new_URL base) (split_lines manifest) = Inr ls"
    and out: "out = join [0x0A] ls"
    by (auto simp: rewriteManifestWithProxy_def split: sum.splits)
  from ls have all2: "list_all2 (\<lambda>l r. rewrite_line new_URL base l = Inr r) (split_lines manifest) ls"
    by (rule map_result_Inr)
  then have len: "length ls = length (split_lines manifest)" by (simp add: list_all2_lengthD)
  with split_lines_not_empty [of manifest] have "ls \<noteq> []" by auto
  moreover have "\<forall>l \<in> set ls. line_safe l"
  proof
    fix l assume "l \<in> set ls"
    then obtain i where i: "i < length ls" "l = ls ! i" by (auto simp: in_set_conv_nth)
    with all2 have "rewrite_line new_URL base (split_lines manifest ! i) = Inr l"
      by (simp add: list_all2_conv_all_nth)
    moreover from i len have "split_lines manifest ! i \<in> set (split_lines manifest)" by simp
    ultimately show "line_safe l" by (rule rewrite_line_safe)
  qed
  ultimately have split: "split_lines out = ls" unfolding out by (rule split_lines_join)
  from len split show "length (split_lines out) = length (split_lines manifest)" by simp
  from all2 show "list_all2 (rewritten_as new_URL base) (split_lines manifest) (split_lines out)"
    unfolding split by (simp add: rewrite_line_result)
next
  assume a: "new_URL sourceUrl None = Some base \<and>
    list_all (\<lambda>line. \<exists>out_line. rewritten_as new_URL base line out_line) (split_lines manifest)"
  then have "\<forall>l \<in> set (split_lines manifest). \<exists>r. rewrite_line new_URL base l = Inr r"
    by (simp add: list_all_iff rewrite_line_result)
  then obtain ls where "map_result (rewrite_line new_URL base) (split_lines manifest) = Inr ls"
    using map_result_total by blast
  with a show "\<exists>out. rewriteManifestWithProxy new_URL manifest sourceUrl = Inr out"
    by (simp add: rewriteManifestWithProxy_def)
qed

lemma rewritable_rewritten:
  assumes "rewritable new_URL base line"
  shows "\<exists>out_line. rewritten_as new_URL base line out_line"
proof (cases "passes_through (trim line)")
  case True
  then have "rewritten_as new_URL base line (trim line)" by (simp add: rewritten_as_def)
  then show ?thesis ..
next
  case False
  with assms obtain absolute where a: "new_URL (trim line) (Some base) = Some absolute"
    and "well_formed absolute"
    by (auto simp: rewritable_def split: option.splits)
  then obtain enc where "encodeURIComponent absolute = Inr enc"
    using encode_well_formed by blast
  with False a have "rewritten_as new_URL base line (js ''/api/stream?url='' @ enc)"
    by (simp add: rewritten_as_def)
  then show ?thesis ..
qed

text \<open>
  C1, as the code has it. When the platform accepts the source URL, and
  \<^verbatim>\<open>rewriteManifestWithProxy\<close> returns, the output has exactly as many lines as the
  manifest, and line by line, in order: a line that after trimming is empty or begins
  with \<^verbatim>\<open>#\<close> or \<^verbatim>\<open>DATA:\<close> has become its trimmed form (not the line verbatim), and every
  other line has become \<^verbatim>\<open>/api/stream?url=\<close> followed by the percent-encoding of the
  URL that the platform resolves the trimmed line to against the source URL. It
  returns whenever the platform resolves every line that does not pass through.
\<close>

theorem rewriteManifest_lines:
  "(new_URL sourceUrl None = Some base \<and>
    rewriteManifestWithProxy new_URL manifest sourceUrl = Inr out \<longrightarrow>
      length (split_lines out) = length (split_lines manifest) \<and>
      list_all2 (rewritten_as new_URL base) (split_lines manifest) (split_lines out)) \<and>
   (new_URL sourceUrl None = Some base \<and>
    list_all (rewritable new_URL base) (split_lines manifest) \<longrightarrow>
      (\<exists>out. rewriteManifestWithProxy new_URL manifest sourceUrl = Inr out))"
  using rewritten_lines [of new_URL sourceUrl base manifest out] rewritable_rewritten
  by (auto simp: list_all_iff)

lemma manifest_example_rewritten:
  "rewriteManifestWithProxy example_URL manifest_example (js ''http://x/live/a.m3u8'') =
     Inr (join [0x0A]
            [js ''#EXTM3U'', js ''#EXTINF:4,'',
             js ''/api/stream?url=http%3A%2F%2Fx%2Flive%2Fseg1.ts'', js '''', js ''DATA:x''])"
  by code_simp

lemma manifest_example_rewritable:
  "list_all (rewritable example_URL (js ''http://x/live/a.m3u8'')) (split_lines manifest_example)"
  by code_simp

lemma example_URL_source:
  "example_URL (js ''http://x/live/a.m3u8'') None = Some (js ''http://x/live/a.m3u8'')"
  by code_simp

theorem rewriteManifest_lines_witness:
  "example_URL (js ''http://x/live/a.m3u8'') None = Some (js ''http://x/live/a.m3u8'') \<and>
   list_all (rewritable example_URL (js ''http://x/live/a.m3u8'')) (split_lines manifest_example) \<and>
   (\<exists>out. rewriteManifestWithProxy example_URL manifest_example (js ''http://x/live/a.m3u8'') = Inr out \<and>
      out = join [0x0A] [js ''#EXTM3U'', js ''#EXTINF:4,'',
              js ''/api/stream?url=http%3A%2F%2Fx%2Flive%2Fseg1.ts'', js '''', js ''DATA:x''] \<and>
      length (split_lines out) = length (split_lines manifest_example) \<and>
      list_all2 (rewritten_as example_URL (js ''http://x/live/a.m3u8''))
        (split_lines manifest_example) (split_lines out))"
  using rewriteManifest_lines
      [of example_URL "js ''http://x/live/a.m3u8''" "js ''http://x/live/a.m3u8''" manifest_example
        "join [0x0A] [js ''#EXTM3U'', js ''#EXTINF:4,'',
              js ''/api/stream?url=http%3A%2F%2Fx%2Flive%2Fseg1.ts'', js '''', js ''DATA:x'']"]
    manifest_example_rewritten manifest_example_rewritable example_URL_source
  by simp

text \<open>
  As the specification words it, the property fails on a comment line with white space
  around it: the line is not passed through verbatim, it is trimmed.
\<close>

theorem rewriteManifest_trims_counterexample:
  "split_lines (js '' #EXTM3U'') = [js '' #EXTM3U''] \<and>
   startsWith (trim (js '' #EXTM3U'')) (js ''#'') \<and>
   rewriteManifestWithProxy example_URL (js '' #EXTM3U'') (js ''http://x/live/a.m3u8'') =
     Inr (js ''#EXTM3U'') \<and>
   js ''#EXTM3U'' \<noteq> js '' #EXTM3U''"
  by code_simp

end
